theory Spec2Isabelle
  imports Complex_Main "HOL-Library.Log_Nat"
begin

section \<open>The fog of war of \<open>01-fog-of-war/tank_king/objects.py\<close>\<close>

text \<open>
  The development embeds the classes \<open>LightGlow\<close> and \<open>DarkOverlay\<close> of
  \<open>objects.py\<close>. Python integers are \<open>int\<close>. A Python float is the rational number it
  denotes, and every float operation of the source rounds its exact result to the nearest
  binary64 value (\<open>float_round\<close>), so the model computes the very numbers the interpreter
  computes. Exceptions are values of the type \<open>error\<close>.
\<close>

subsection \<open>Python floats\<close>

text \<open>
  \<open>pow2 e\<close> is \<open>2\<close> to the power \<open>e\<close> for an exponent of either sign.
\<close>

definition pow2 :: "int \<Rightarrow> rat" where
  "pow2 e = (if 0 \<le> e then 2 ^ nat e else 1 / 2 ^ nat (- e))"

text \<open>
  Rounding to the nearest integer, a tie going to the even neighbour: the rounding mode of
  binary64 arithmetic.
\<close>

definition round_half_even :: "rat \<Rightarrow> int" where
  "round_half_even x =
     (let f = \<lfloor>x\<rfloor>; d = x - of_int f
      in if d < 1 / 2 then f
         else if 1 / 2 < d then f + 1
         else if even f then f else f + 1)"

text \<open>
  \<open>binade x\<close> is the exponent \<open>e\<close> with \<open>2 ^ e \<le> \<bar>x\<bar> < 2 ^ (e + 1)\<close>, for \<open>x \<noteq> 0\<close>.
\<close>

definition binade :: "rat \<Rightarrow> int" where
  "binade x =
     (let a = \<bar>x\<bar>
      in if 1 \<le> a then int (floorlog 2 (nat \<lfloor>a\<rfloor>)) - 1
         else - int (floorlog 2 (nat (\<lceil>1 / a\<rceil> - 1))))"

text \<open>
  \<open>float_round x\<close> is the binary64 value nearest to \<open>x\<close>: 53 significant bits, so the
  spacing of the values in the binade \<open>e\<close> of \<open>x\<close> is \<open>2 ^ (e - 52)\<close>. The exponent is not
  bounded: the subtraction below never overflows, and its result is never subnormal.
\<close>

definition float_round :: "rat \<Rightarrow> rat" where
  "float_round x =
     (if x = 0 then 0
      else let u = pow2 (binade x - 52)
           in of_int (round_half_even (x / u)) * u)"

text \<open>The float subtraction \<open>a - b\<close> of two floats.\<close>

definition float_sub :: "rat \<Rightarrow> rat \<Rightarrow> rat" where
  "float_sub a b = float_round (a - b)"

text \<open>The literal \<open>0.1\<close> of the source: the float nearest to one tenth.\<close>

definition tenth :: rat where
  "tenth = float_round (1 / 10)"

text \<open>\<open>int(x)\<close> of a float: truncation towards zero.\<close>

definition py_int :: "rat \<Rightarrow> int" where
  "py_int x = (if 0 \<le> x then \<lfloor>x\<rfloor> else \<lceil>x\<rceil>)"

subsection \<open>The helpers of \<open>utils.py\<close>\<close>

text \<open>
  Modelled from the spec: \<open>utils.clamp\<close>, which the module imports and whose file is not
  part of the sources at hand. The specification says of every use "clamp to [lo, hi]":
  a value below the lower bound becomes the lower bound, a value above the upper bound
  becomes the upper bound, and any other value is returned as it is.
\<close>

definition clamp :: "'a::linorder \<Rightarrow> 'a \<Rightarrow> 'a \<Rightarrow> 'a" where
  "clamp v lo hi = (if v < lo then lo else if hi < v then hi else v)"

text \<open>
  Modelled from the spec: \<open>utils.distance\<close>, likewise imported from the absent
  \<open>utils.py\<close>. The specification calls it the Euclidean distance of two points. The points
  here are cell centres and the light position, in integer pixel coordinates.
\<close>

definition distance :: "int \<times> int \<Rightarrow> int \<times> int \<Rightarrow> real" where
  "distance p q = sqrt (of_int ((fst p - fst q)\<^sup>2 + (snd p - snd q)\<^sup>2))"

text \<open>The test \<open>distance(center, pos) < radius\<close> of \<open>DarkOverlay.draw\<close>.\<close>

definition lit :: "int \<times> int \<Rightarrow> int \<times> int \<Rightarrow> int \<Rightarrow> bool" where
  "lit center pos r \<longleftrightarrow> distance center pos < of_int r"

subsection \<open>pygame surfaces\<close>

text \<open>
  The exceptions of \<open>pygame.Surface(size)\<close>: \<open>ValueError\<close> for a size that it cannot read
  as two C ints, \<open>pygame.error\<close> for a negative width or height and for a surface that
  cannot be allocated.
\<close>

datatype error = PygameError | ValueError

text \<open>
  Whether a surface of a given size can be allocated is decided inside pygame and SDL, by
  the memory at hand and by limits that differ between their versions. \<open>fits (w, h)\<close>
  stands for "a surface of \<open>w\<close> by \<open>h\<close> pixels can be allocated" and is a parameter of
  everything that creates a surface; it is taken to be the same throughout a run.
\<close>

type_synonym colour = "int \<times> int \<times> int"

text \<open>
  A surface without per-pixel alpha (the overlay's own surface and the screen): its size and
  the colour of every pixel. A new surface is black.
\<close>

record surface =
  width :: int
  height :: int
  pix :: "int \<Rightarrow> int \<Rightarrow> colour"

text \<open>
  \<open>pygame.Surface(SCREEN.size)\<close>. The size is that of the rectangle \<open>SCREEN\<close>, whose width
  and height are C ints as they stand.
\<close>

definition new_surface :: "(int \<times> int \<Rightarrow> bool) \<Rightarrow> int \<times> int \<Rightarrow> error + surface" where
  "new_surface fits sz =
     (if fst sz < 0 \<or> snd sz < 0 then Inl PygameError
      else if fits sz then Inr \<lparr>width = fst sz, height = snd sz, pix = (\<lambda>x y. (0, 0, 0))\<rparr>
      else Inl PygameError)"

definition inside :: "surface \<Rightarrow> int \<Rightarrow> int \<Rightarrow> bool" where
  "inside s x y \<longleftrightarrow> 0 \<le> x \<and> x < width s \<and> 0 \<le> y \<and> y < height s"

text \<open>
  \<open>pygame.draw.rect(s, c, (x0, y0, w, h))\<close>: the pixels of the rectangle that lie on the
  surface take the colour \<open>c\<close>.
\<close>

definition draw_rect :: "surface \<Rightarrow> colour \<Rightarrow> int \<times> int \<times> int \<times> int \<Rightarrow> surface" where
  "draw_rect s c r =
     (case r of (x0, y0, w, h) \<Rightarrow>
        s\<lparr>pix := (\<lambda>x y. if inside s x y \<and> x0 \<le> x \<and> x < x0 + w \<and> y0 \<le> y \<and> y < y0 + h
                        then c else pix s x y)\<rparr>)"

text \<open>
  \<open>dst.blit(src, topleft, special_flags=BLEND_RGBA_MAX)\<close>: where the source covers the
  destination, each colour channel becomes the greater of the two.
\<close>

definition colour_max :: "colour \<Rightarrow> colour \<Rightarrow> colour" where
  "colour_max d s =
     (case d of (dr, dg, db) \<Rightarrow> case s of (sr, sg, sb) \<Rightarrow> (max dr sr, max dg sg, max db sb))"

definition blit_max :: "surface \<Rightarrow> surface \<Rightarrow> int \<times> int \<Rightarrow> surface" where
  "blit_max dst src topleft =
     dst\<lparr>pix := (\<lambda>x y. if inside dst x y \<and> inside src (x - fst topleft) (y - snd topleft)
                      then colour_max (pix dst x y) (pix src (x - fst topleft) (y - snd topleft))
                      else pix dst x y)\<rparr>"

text \<open>
  \<open>dst.blit(src, topleft, special_flags=BLEND_RGBA_MULT)\<close>: pygame 2 multiplies each
  channel as \<open>(d * s + 255) >> 8\<close>, and gives 0 when either factor is 0.
\<close>

definition blend_mult :: "int \<Rightarrow> int \<Rightarrow> int" where
  "blend_mult d s = (if d \<noteq> 0 \<and> s \<noteq> 0 then (d * s + 255) div 256 else 0)"

text \<open>A colour whose three channels are bytes.\<close>

definition byte_colour :: "colour \<Rightarrow> bool" where
  "byte_colour c \<longleftrightarrow>
     (case c of (r, g, b) \<Rightarrow> 0 \<le> r \<and> r \<le> 255 \<and> 0 \<le> g \<and> g \<le> 255 \<and> 0 \<le> b \<and> b \<le> 255)"

definition colour_mult :: "colour \<Rightarrow> colour \<Rightarrow> colour" where
  "colour_mult d s =
     (case d of (dr, dg, db) \<Rightarrow> case s of (sr, sg, sb) \<Rightarrow>
        (blend_mult dr sr, blend_mult dg sg, blend_mult db sb))"

definition blit_mult :: "surface \<Rightarrow> surface \<Rightarrow> int \<times> int \<Rightarrow> surface" where
  "blit_mult dst src topleft =
     dst\<lparr>pix := (\<lambda>x y. if inside dst x y \<and> inside src (x - fst topleft) (y - snd topleft)
                      then colour_mult (pix dst x y) (pix src (x - fst topleft) (y - snd topleft))
                      else pix dst x y)\<rparr>"

text \<open>
  The surface of a \<open>LightGlow\<close> is created with \<open>SRCALPHA\<close> and only ever receives
  \<open>pygame.draw.circle\<close> calls. It is kept as its size and the list of those calls in the
  order they were made: colour, centre and radius argument of each.
\<close>

record mask =
  mask_w :: int
  mask_h :: int
  rings :: "(colour \<times> (int \<times> int) \<times> int) list"

text \<open>
  pygame reads a Python integer of the size through \<open>PyLong_AsLong\<close> into a C \<open>int\<close>: an
  integer outside the 64 bits of a C \<open>long\<close> is refused, any other is cut to its low 32 bits
  and read as a signed number. So \<open>2 ^ 31\<close> is read as \<open>- 2 ^ 31\<close> and \<open>2 ^ 32\<close> as 0.
\<close>

definition c_int :: "int \<Rightarrow> int option" where
  "c_int v =
     (if - (2 ^ 63) \<le> v \<and> v < 2 ^ 63 then Some ((v + 2 ^ 31) mod 2 ^ 32 - 2 ^ 31) else None)"

text \<open>
  \<open>pygame.Surface((w, h), pygame.SRCALPHA)\<close> for two Python integers, as \<open>LightGlow\<close>
  calls it with \<open>radius * 2\<close>.
\<close>

definition new_mask :: "(int \<times> int \<Rightarrow> bool) \<Rightarrow> int \<times> int \<Rightarrow> error + mask" where
  "new_mask fits sz =
     (case c_int (fst sz) of
        None \<Rightarrow> Inl ValueError
      | Some w \<Rightarrow>
          (case c_int (snd sz) of
             None \<Rightarrow> Inl ValueError
           | Some h \<Rightarrow>
               if w < 0 \<or> h < 0 then Inl PygameError
               else if fits (w, h) then Inr \<lparr>mask_w = w, mask_h = h, rings = []\<rparr>
               else Inl PygameError))"

definition draw_circle :: "mask \<Rightarrow> colour \<Rightarrow> int \<times> int \<Rightarrow> int \<Rightarrow> mask" where
  "draw_circle m c center r = m\<lparr>rings := rings m @ [(c, center, r)]\<rparr>"

text \<open>\<open>m.get_rect().center\<close>.\<close>

definition mask_center :: "mask \<Rightarrow> int \<times> int" where
  "mask_center m = (mask_w m div 2, mask_h m div 2)"

text \<open>
  The pixels of a mask. Which pixels a circle of a given radius covers is decided inside
  pygame; \<open>covers r dx dy\<close> stands for "the circle of radius argument \<open>r\<close> covers the pixel
  at offset \<open>(dx, dy)\<close> from its centre" and is a parameter. A later circle paints over an
  earlier one; a pixel that no circle covers is transparent black, which leaves the
  destination of a maximum blend as it is.
\<close>

definition rasterise :: "(int \<Rightarrow> int \<Rightarrow> int \<Rightarrow> bool) \<Rightarrow> mask \<Rightarrow> surface" where
  "rasterise covers m =
     \<lparr>width = mask_w m, height = mask_h m,
      pix = (\<lambda>x y. foldl (\<lambda>c ring. case ring of (col, center, r) \<Rightarrow>
                              if covers r (x - fst center) (y - snd center) then col else c)
                          (0, 0, 0) (rings m))\<rparr>"

subsection \<open>\<open>LightGlow\<close>\<close>

record LightGlow =
  radius :: int
  surf :: mask
  glow :: int
  blink_timer :: rat
  is_blinking :: bool
  blink_k :: int

text \<open>
  One pass of the loop \<open>for i in range(layers)\<close>, shared by the constructor (\<open>step = 5\<close>)
  and \<open>update_glow\<close> (\<open>step = 3\<close>).
\<close>

definition ring :: "int \<Rightarrow> int \<Rightarrow> int \<Rightarrow> mask \<Rightarrow> nat \<Rightarrow> mask" where
  "ring r g step m i =
     (let k = int i * g;
          k = clamp k 0 255
      in draw_circle m (k, k, k) (mask_center m) (r - int i * step))"

definition layers :: nat where
  "layers = 25"

definition update_glow :: "(int \<times> int \<Rightarrow> bool) \<Rightarrow> LightGlow \<Rightarrow> error + LightGlow" where
  "update_glow fits lg =
     (let g = glow lg + 1
      in case new_mask fits (radius lg * 2, radius lg * 2) of
           Inl e \<Rightarrow> Inl e
         | Inr m \<Rightarrow>
             let g = clamp g 0 255
             in Inr (lg\<lparr>glow := g, surf := foldl (ring (radius lg) g 3) m [0..<layers]\<rparr>))"

text \<open>
  \<open>LightGlow.__init__(radius)\<close>; \<open>now\<close> is the reading of \<open>time.time()\<close>. The three blink
  attributes are assigned after the call of \<open>update_glow\<close>, which does not read them.
\<close>

definition LightGlow_init :: "(int \<times> int \<Rightarrow> bool) \<Rightarrow> int \<Rightarrow> rat \<Rightarrow> error + LightGlow" where
  "LightGlow_init fits r now =
     (case new_mask fits (r * 2, r * 2) of
        Inl e \<Rightarrow> Inl e
      | Inr m \<Rightarrow>
          (case update_glow fits \<lparr>radius = r, surf = foldl (ring r 11 5) m [0..<layers], glow = 11,
                             blink_timer = now, is_blinking = False, blink_k = 1\<rparr> of
             Inl e \<Rightarrow> Inl e
           | Inr lg \<Rightarrow> Inr lg))"


text \<open>\<open>n\<close> calls of \<open>update_glow\<close> in a row; an exception ends the run.\<close>

fun update_glow_times ::
  "(int \<times> int \<Rightarrow> bool) \<Rightarrow> nat \<Rightarrow> LightGlow \<Rightarrow> error + LightGlow" where
  "update_glow_times fits 0 lg = Inr lg"
| "update_glow_times fits (Suc n) lg =
     (case update_glow fits lg of
        Inl e \<Rightarrow> Inl e
      | Inr lg' \<Rightarrow> update_glow_times fits n lg')"

subsection \<open>\<open>DarkOverlay\<close>\<close>

record DarkOverlay =
  dark_surf :: surface
  light :: LightGlow
  cell_size :: int
  grid :: "rat list list"

text \<open>
  \<open>DarkOverlay.__init__()\<close>. \<open>SIZE\<close> is the screen size that the module takes from
  \<open>wclib\<close>; \<open>SCREEN\<close> is the rectangle of that size at the origin. Every cell starts as
  \<open>0 * random.random()\<close>, which is the float 0 whatever the random number is.
\<close>

definition DarkOverlay_init ::
  "(int \<times> int \<Rightarrow> bool) \<Rightarrow> int \<times> int \<Rightarrow> rat \<Rightarrow> error + DarkOverlay" where
  "DarkOverlay_init fits SIZE now =
     (case new_surface fits SIZE of
        Inl e \<Rightarrow> Inl e
      | Inr s \<Rightarrow>
          (case LightGlow_init fits 125 now of
             Inl e \<Rightarrow> Inl e
           | Inr lg \<Rightarrow>
               let cs = 16 * 2
               in Inr \<lparr>dark_surf = s, light = lg, cell_size = cs,
                       grid = replicate (nat (snd SIZE div cs))
                                (replicate (nat (fst SIZE div cs)) 0)\<rparr>))"

text \<open>
  The body of the two loops of \<open>DarkOverlay.draw\<close> for the cell \<open>(row, col)\<close>, on the grid and
  the overlay's surface.
\<close>

definition draw_cell ::
  "LightGlow \<Rightarrow> int \<times> int \<Rightarrow> int \<Rightarrow> nat \<Rightarrow> rat list list \<times> surface \<Rightarrow> nat
     \<Rightarrow> rat list list \<times> surface" where
  "draw_cell lg pos csize row st col =
     (case st of (g, s) \<Rightarrow>
        let k = g ! row ! col;
            g = (if 0 < k then g[row := (g ! row)[col := clamp (float_sub k tenth) 25 255]]
                 else g);
            k = py_int (g ! row ! col);
            center = (int col * csize + csize div 2, int row * csize + csize div 2);
            l = lit center pos (radius lg);
            g = (if l then g[row := (g ! row)[col := 55]] else g);
            k = (if l then 55 - (11 - glow lg) * 2 else k);
            k = clamp k 0 255
        in (g, draw_rect s (k, k, k) (int col * csize, int row * csize, csize, csize)))"

definition draw_row ::
  "LightGlow \<Rightarrow> int \<times> int \<Rightarrow> int \<Rightarrow> rat list list \<times> surface \<Rightarrow> nat
     \<Rightarrow> rat list list \<times> surface" where
  "draw_row lg pos csize st row =
     foldl (draw_cell lg pos csize row) st [0..<length (fst st ! row)]"

text \<open>The two nested loops of \<open>DarkOverlay.draw\<close>, lines 191 to 205.\<close>

definition draw_cells ::
  "LightGlow \<Rightarrow> int \<times> int \<Rightarrow> int \<Rightarrow> rat list list \<times> surface \<Rightarrow> rat list list \<times> surface" where
  "draw_cells lg pos csize st = foldl (draw_row lg pos csize) st [0..<length (fst st)]"

text \<open>
  \<open>DarkOverlay.draw(surf, pos)\<close>: the overlay and the screen after the call.
\<close>

definition draw ::
  "(int \<Rightarrow> int \<Rightarrow> int \<Rightarrow> bool) \<Rightarrow> DarkOverlay \<Rightarrow> surface \<Rightarrow> int \<times> int
     \<Rightarrow> DarkOverlay \<times> surface" where
  "draw covers ov screen pos =
     (let csize = cell_size ov;
          st = draw_cells (light ov) pos csize (grid ov, dark_surf ov);
          m = rasterise covers (surf (light ov));
          s = blit_max (snd st) m (fst pos - width m div 2, snd pos - height m div 2);
          screen = blit_mult screen s (0, 0)
      in (ov\<lparr>dark_surf := s, grid := fst st\<rparr>, screen))"

text \<open>
  A run of frames: \<open>draw\<close> is called once per frame with that frame's screen and light
  position.
\<close>

fun draw_frames ::
  "(int \<Rightarrow> int \<Rightarrow> int \<Rightarrow> bool) \<Rightarrow> DarkOverlay \<Rightarrow> (surface \<times> (int \<times> int)) list
     \<Rightarrow> DarkOverlay" where
  "draw_frames covers ov [] = ov"
| "draw_frames covers ov (f # fs) =
     draw_frames covers (fst (draw covers ov (fst f) (snd f))) fs"

text \<open>The centre of the cell \<open>(row, col)\<close>, as \<open>draw\<close> computes it.\<close>

definition cell_center :: "DarkOverlay \<Rightarrow> nat \<Rightarrow> nat \<Rightarrow> int \<times> int" where
  "cell_center ov row col =
     (int col * cell_size ov + cell_size ov div 2, int row * cell_size ov + cell_size ov div 2)"

text \<open>
  What lines 193 to 196 of \<open>draw\<close> store for a cell holding \<open>k\<close>: the decay by the float
  \<open>0.1\<close>, floored at 25.
\<close>

definition decay :: "rat \<Rightarrow> rat" where
  "decay k = (if 0 < k then clamp (float_sub k tenth) 25 255 else k)"

text \<open>
  What one pass of the loop body leaves in the grid for a cell that held \<open>k\<close>, and the grey
  level it paints for it.
\<close>

definition stored :: "LightGlow \<Rightarrow> int \<times> int \<Rightarrow> int \<Rightarrow> nat \<Rightarrow> nat \<Rightarrow> rat \<Rightarrow> rat" where
  "stored lg pos csize row col k =
     (if lit (int col * csize + csize div 2, int row * csize + csize div 2) pos (radius lg)
      then 55 else decay k)"

definition painted :: "LightGlow \<Rightarrow> int \<times> int \<Rightarrow> int \<Rightarrow> nat \<Rightarrow> nat \<Rightarrow> rat \<Rightarrow> int" where
  "painted lg pos csize row col k =
     clamp (if lit (int col * csize + csize div 2, int row * csize + csize div 2) pos (radius lg)
            then 55 - (11 - glow lg) * 2 else py_int (decay k)) 0 255"

text \<open>
  Half the spacing of the binary64 values between 128 and 256: no rounding of a number
  below 256 in magnitude moves it further.
\<close>

definition slack :: rat where
  "slack = 1 / 2 ^ 46"

subsection \<open>Sample inputs\<close>

text \<open>
  An allocator to run the model with: every surface of less than \<open>2 ^ 31\<close> bytes, at four
  bytes a pixel.
\<close>

definition sample_fits :: "int \<times> int \<Rightarrow> bool" where
  "sample_fits sz \<longleftrightarrow> fst sz * snd sz * 4 < 2 ^ 31"

text \<open>
  A rasteriser to run the model with: the ideal disc, nothing for a radius below 1.
\<close>

definition disc :: "int \<Rightarrow> int \<Rightarrow> int \<Rightarrow> bool" where
  "disc r dx dy \<longleftrightarrow> 1 \<le> r \<and> dx\<^sup>2 + dy\<^sup>2 \<le> r\<^sup>2"

definition black_screen :: surface where
  "black_screen = \<lparr>width = 32, height = 32, pix = (\<lambda>x y. (0, 0, 0))\<rparr>"

text \<open>
  The overlay of a 32 by 32 screen, whose grid is the single cell \<open>(0, 0)\<close> with centre
  \<open>(16, 16)\<close>, after that cell has come to hold \<open>k\<close>.
\<close>

definition one_cell :: "rat \<Rightarrow> DarkOverlay" where
  "one_cell k = (projr (DarkOverlay_init sample_fits (32, 32) 0))\<lparr>grid := [[k]]\<rparr>"

text \<open>A screen that is not black: every pixel is \<open>(200, 100, 1)\<close>.\<close>

definition tinted_screen :: surface where
  "tinted_screen = \<lparr>width = 32, height = 32, pix = (\<lambda>x y. (200, 100, 1))\<rparr>"

text \<open>The same frame \<open>n\<close> times over, the light standing far from the cell at \<open>(1000, 1000)\<close>.\<close>

definition far_frames :: "nat \<Rightarrow> (surface \<times> (int \<times> int)) list" where
  "far_frames n = replicate n (black_screen, (1000, 1000))"

section \<open>Properties\<close>

subsection \<open>The light test\<close>

lemma lit_code [code]:
  "lit center pos r \<longleftrightarrow>
     0 < r \<and> (fst center - fst pos)\<^sup>2 + (snd center - snd pos)\<^sup>2 < r\<^sup>2"
proof (cases "0 < r")
  case True
  let ?d = "(fst center - fst pos)\<^sup>2 + (snd center - snd pos)\<^sup>2"
  have "sqrt (of_int ?d) < of_int r \<longleftrightarrow> sqrt (of_int ?d) < sqrt ((of_int r)\<^sup>2)"
    using True by simp
  also have "\<dots> \<longleftrightarrow> (of_int ?d :: real) < (of_int r)\<^sup>2"
    by (rule real_sqrt_less_iff)
  also have "\<dots> \<longleftrightarrow> ?d < r\<^sup>2"
    by (metis of_int_less_iff of_int_power)
  finally have "lit center pos r \<longleftrightarrow> ?d < r\<^sup>2"
    unfolding lit_def distance_def .
  then show ?thesis using True by simp
next
  case False
  have "0 \<le> distance center pos"
    unfolding distance_def by (rule real_sqrt_ge_zero) simp
  moreover have "(of_int r :: real) \<le> 0" using False by simp
  ultimately have "\<not> lit center pos r" unfolding lit_def by linarith
  then show ?thesis using False by simp
qed

subsection \<open>Float rounding\<close>

text \<open>
  Below 256 in magnitude, rounding to binary64 moves a number by at most \<open>2 ^ (- 46)\<close>.
\<close>

lemma round_half_even_error: "\<bar>of_int (round_half_even y) - y\<bar> \<le> 1 / 2"
proof -
  have "of_int \<lfloor>y\<rfloor> \<le> y" "y < of_int \<lfloor>y\<rfloor> + 1" by linarith+
  then show ?thesis
    by (auto simp: round_half_even_def Let_def)
qed

lemma pow2_pos: "0 < pow2 e"
  by (simp add: pow2_def)

lemma pow2_le: "e \<le> - 45 \<Longrightarrow> pow2 e \<le> 1 / 2 ^ 45"
proof -
  assume e: "e \<le> - 45"
  then have "45 \<le> nat (- e)" by simp
  then have "(2::rat) ^ 45 \<le> 2 ^ nat (- e)"
    by (intro power_increasing) simp_all
  then have "1 / 2 ^ nat (- e) \<le> 1 / (2::rat) ^ 45"
    by (intro divide_left_mono) simp_all
  then show ?thesis using e by (simp add: pow2_def)
qed

lemma binade_le_7: "\<bar>x\<bar> < 256 \<Longrightarrow> binade x \<le> 7"
proof -
  assume a: "\<bar>x\<bar> < 256"
  show ?thesis
  proof (cases "1 \<le> \<bar>x\<bar>")
    case True
    have "\<lfloor>\<bar>x\<bar>\<rfloor> < 256" using a by (simp add: floor_less_iff)
    then have "nat \<lfloor>\<bar>x\<bar>\<rfloor> < 256" by linarith
    then have "nat \<lfloor>\<bar>x\<bar>\<rfloor> < 2 ^ 8" by simp
    then have "floorlog 2 (nat \<lfloor>\<bar>x\<bar>\<rfloor>) \<le> 8"
      by (simp add: floorlog_le_iff)
    then show ?thesis using True by (simp add: binade_def Let_def)
  next
    case False
    then show ?thesis by (simp add: binade_def Let_def)
  qed
qed

lemma float_round_error: "\<bar>x\<bar> < 256 \<Longrightarrow> \<bar>float_round x - x\<bar> \<le> slack"
proof (cases "x = 0")
  case True
  then show ?thesis by (simp add: float_round_def slack_def)
next
  case False
  assume a: "\<bar>x\<bar> < 256"
  define u where "u = pow2 (binade x - 52)"
  have u0: "0 < u" by (simp add: u_def pow2_pos)
  have u45: "u \<le> 1 / 2 ^ 45"
    unfolding u_def using binade_le_7[OF a] by (intro pow2_le) simp
  have fr: "float_round x = of_int (round_half_even (x / u)) * u"
    using False by (simp add: float_round_def u_def Let_def)
  have "float_round x - x = (of_int (round_half_even (x / u)) - x / u) * u"
    using u0 by (simp add: fr algebra_simps)
  then have "\<bar>float_round x - x\<bar> = \<bar>of_int (round_half_even (x / u)) - x / u\<bar> * u"
    using u0 by (simp add: abs_mult)
  also have "\<dots> \<le> (1 / 2) * u"
    using round_half_even_error[of "x / u"] u0 by (intro mult_right_mono) simp_all
  also have "\<dots> \<le> (1 / 2) * (1 / 2 ^ 45)"
    using u45 by simp
  finally show ?thesis by (simp add: slack_def)
qed

lemma tenth_eq: "tenth = 3602879701896397 / 36028797018963968"
  by code_simp

subsection \<open>The decay of a cell\<close>

lemma tenth_bounds: "1 / 10 < tenth" "tenth < 1 / 10 + 1 / 10 ^ 16"
  by (simp_all add: tenth_eq)

lemma slack_bounds: "0 < slack" "slack < 1 / 10 ^ 13"
  by (simp_all add: slack_def)

lemma float_sub_tenth_bounds:
  assumes "25 \<le> k" "k \<le> 255"
  shows "k - tenth - slack \<le> float_sub k tenth"
    and "float_sub k tenth \<le> k - tenth + slack"
proof -
  have "\<bar>k - tenth\<bar> < 256" using assms tenth_bounds by (simp add: abs_less_iff)
  then have "\<bar>float_round (k - tenth) - (k - tenth)\<bar> \<le> slack"
    by (rule float_round_error)
  then show "k - tenth - slack \<le> float_sub k tenth"
    and "float_sub k tenth \<le> k - tenth + slack"
    unfolding float_sub_def by linarith+
qed

lemma decay_nonpos: "k \<le> 0 \<Longrightarrow> decay k = k"
  by (simp add: decay_def)

lemma decay_range: "0 < k \<Longrightarrow> 25 \<le> decay k \<and> decay k \<le> 255"
  by (simp add: decay_def clamp_def)

lemma decay_le: "25 \<le> k \<Longrightarrow> decay k \<le> k"
proof (cases "k \<le> 255")
  case True
  assume "25 \<le> k"
  from float_sub_tenth_bounds(2)[OF this True] tenth_bounds(1) slack_bounds \<open>25 \<le> k\<close>
  show ?thesis by (simp add: decay_def clamp_def)
next
  case False
  then show ?thesis by (simp add: decay_def clamp_def)
qed

lemma decay_lower: "25 \<le> k \<Longrightarrow> k \<le> 255 \<Longrightarrow> k - (tenth + slack) \<le> decay k"
  using float_sub_tenth_bounds(1)[of k] float_sub_tenth_bounds(2)[of k] tenth_bounds(1)
    slack_bounds
  by (simp add: decay_def clamp_def)

lemma decay_upper: "25 \<le> k \<Longrightarrow> k \<le> 255 \<Longrightarrow> decay k \<le> max 25 (k - (tenth - slack))"
  using float_sub_tenth_bounds(2)[of k] tenth_bounds(1) slack_bounds
  by (simp add: decay_def clamp_def)

lemma decay_25: "decay 25 = 25"
  using decay_upper[of 25] decay_range[of 25] tenth_bounds(1) slack_bounds by simp

lemma decay_iter_range: "25 \<le> k \<Longrightarrow> k \<le> 255 \<Longrightarrow> 25 \<le> (decay ^^ n) k \<and> (decay ^^ n) k \<le> 255"
  by (induction n) (simp_all add: decay_range)

lemma decay_iter_floor: "25 \<le> k \<Longrightarrow> 25 \<le> (decay ^^ n) k"
  by (induction n) (simp_all add: decay_range)

lemma decay_iter_antimono: "25 \<le> k \<Longrightarrow> (decay ^^ Suc n) k \<le> (decay ^^ n) k"
  using decay_le[OF decay_iter_floor[of k n]] by simp

lemma decay_iter_lower:
  "25 \<le> k \<Longrightarrow> k \<le> 255 \<Longrightarrow> k - of_nat n * (tenth + slack) \<le> (decay ^^ n) k"
proof (induction n)
  case 0
  then show ?case by simp
next
  case (Suc n)
  have "(decay ^^ n) k - (tenth + slack) \<le> decay ((decay ^^ n) k)"
    using decay_iter_range[OF Suc.prems, of n] by (intro decay_lower) simp_all
  with Suc.IH[OF Suc.prems] show ?case by (simp add: algebra_simps)
qed

lemma decay_iter_upper:
  "25 \<le> k \<Longrightarrow> k \<le> 255 \<Longrightarrow> (decay ^^ n) k \<le> max 25 (k - of_nat n * (tenth - slack))"
proof (induction n)
  case 0
  then show ?case by simp
next
  case (Suc n)
  define d where "d = tenth - slack"
  define a where "a = (decay ^^ n) k"
  have d0: "0 < d" using tenth_bounds(1) slack_bounds by (simp add: d_def)
  have step: "of_nat (Suc n) * d = of_nat n * d + d" by (simp add: algebra_simps)
  have ih: "a \<le> max 25 (k - of_nat n * d)"
    using Suc.IH[OF Suc.prems] by (simp add: a_def d_def)
  have "decay a \<le> max 25 (a - d)"
    unfolding a_def d_def using decay_iter_range[OF Suc.prems, of n] by (intro decay_upper) simp_all
  also have "\<dots> \<le> max 25 (k - of_nat (Suc n) * d)"
    unfolding step using ih d0 by (simp add: max_def split: if_splits)
  finally show ?case by (simp add: a_def d_def)
qed

lemma decay_iter_settled:
  assumes "25 \<le> k" "k \<le> 255" "2301 \<le> n"
  shows "(decay ^^ n) k = 25"
proof -
  have "(2301::rat) \<le> of_nat n" using assms(3) by simp
  then have "2301 * (tenth - slack) \<le> of_nat n * (tenth - slack)"
    using tenth_bounds(1) slack_bounds by (intro mult_right_mono) simp_all
  moreover have "(230::rat) \<le> 2301 * (tenth - slack)"
    by (simp add: tenth_eq slack_def)
  ultimately have "k - of_nat n * (tenth - slack) \<le> 25"
    using assms(2) by simp
  then have "(decay ^^ n) k \<le> 25"
    using decay_iter_upper[OF assms(1,2), of n] by simp
  then show ?thesis using decay_iter_floor[OF assms(1), of n] by simp
qed

lemma decay_iter_settled_any:
  assumes "0 < k" "2302 \<le> n"
  shows "(decay ^^ n) k = 25"
proof -
  obtain m where n: "n = Suc m" and m: "2301 \<le> m"
    using assms(2) by (cases n) simp_all
  have "(decay ^^ n) k = (decay ^^ m) (decay k)"
    by (simp add: n funpow_swap1)
  then show ?thesis
    using decay_iter_settled[of "decay k" m] decay_range[OF assms(1)] m by simp
qed

subsection \<open>The loops of \<open>draw\<close> in closed form\<close>

lemma draw_cell_eq:
  assumes "row < length g" "col < length (g ! row)"
  shows "draw_cell lg pos cs row (g, s) col =
           (g[row := (g ! row)[col := stored lg pos cs row col (g ! row ! col)]],
            draw_rect s (painted lg pos cs row col (g ! row ! col),
                         painted lg pos cs row col (g ! row ! col),
                         painted lg pos cs row col (g ! row ! col))
              (int col * cs, int row * cs, cs, cs))"
  using assms
  by (simp add: draw_cell_def stored_def painted_def decay_def Let_def)

lemma in_cell_iff:
  assumes "0 \<le> x"
  shows "(int n * cs \<le> x \<and> x < int n * cs + cs) \<longleftrightarrow> (0 < cs \<and> nat (x div cs) = n)"
proof
  assume a: "int n * cs \<le> x \<and> x < int n * cs + cs"
  then have cs: "0 < cs" by linarith
  have "x = cs * int n + (x - int n * cs)" by (simp add: algebra_simps)
  then have "x div cs = int n"
    using a by (intro int_div_pos_eq[where r = "x - int n * cs"]) simp_all
  then show "0 < cs \<and> nat (x div cs) = n" using cs by simp
next
  assume b: "0 < cs \<and> nat (x div cs) = n"
  then have cs: "0 < cs" by simp
  have "0 \<le> x div cs" using assms cs by (simp add: pos_imp_zdiv_nonneg_iff)
  then have q: "x div cs = int n" using b by linarith
  have "x = cs * (x div cs) + x mod cs" by simp
  moreover have "0 \<le> x mod cs" "x mod cs < cs" using cs by simp_all
  ultimately show "int n * cs \<le> x \<and> x < int n * cs + cs"
    unfolding q by (simp add: algebra_simps) 
qed


lemma row_step:
  assumes "n < length L"
  shows "(map f [0..<n] @ drop n L)[n := f n] = map f [0..<Suc n] @ drop (Suc n) L"
proof -
  have "(map f [0..<n] @ drop n L)[n := f n] = map f [0..<n] @ (drop n L)[0 := f n]"
    by (simp add: list_update_append)
  also have "(drop n L)[0 := f n] = f n # drop (Suc n) L"
    using assms by (simp add: Cons_nth_drop_Suc[symmetric])
  finally show ?thesis by simp
qed

lemma rect_step:
  assumes "inside s x y"
  shows "(int n * cs \<le> x \<and> x < int n * cs + cs \<and> int row * cs \<le> y \<and> y < int row * cs + cs)
           \<longleftrightarrow> (0 < cs \<and> nat (y div cs) = row \<and> nat (x div cs) = n)"
proof -
  have "0 \<le> x" "0 \<le> y" using assms by (simp_all add: inside_def)
  then show ?thesis
    using in_cell_iff[of x n cs] in_cell_iff[of y row cs] by blast
qed

lemma draw_row_prefix:
  assumes "row < length g" "n \<le> length (g ! row)"
  shows "foldl (draw_cell lg pos cs row) (g, s) [0..<n] =
           (g[row := map (\<lambda>c. stored lg pos cs row c (g ! row ! c)) [0..<n] @ drop n (g ! row)],
            s\<lparr>pix := (\<lambda>x y. if inside s x y \<and> 0 < cs \<and> nat (y div cs) = row \<and> nat (x div cs) < n
                           then (painted lg pos cs row (nat (x div cs)) (g ! row ! nat (x div cs)),
                                 painted lg pos cs row (nat (x div cs)) (g ! row ! nat (x div cs)),
                                 painted lg pos cs row (nat (x div cs)) (g ! row ! nat (x div cs)))
                           else pix s x y)\<rparr>)"
  using assms(2)
proof (induction n)
  case 0
  then show ?case by simp
next
  case (Suc n)
  let ?f = "\<lambda>c. stored lg pos cs row c (g ! row ! c)"
  let ?p = "\<lambda>c. painted lg pos cs row c (g ! row ! c)"
  let ?gn = "g[row := map ?f [0..<n] @ drop n (g ! row)]"
  let ?sn = "s\<lparr>pix := (\<lambda>x y. if inside s x y \<and> 0 < cs \<and> nat (y div cs) = row \<and> nat (x div cs) < n
                           then (?p (nat (x div cs)), ?p (nat (x div cs)), ?p (nat (x div cs)))
                           else pix s x y)\<rparr>"
  have n: "n < length (g ! row)" using Suc.prems by simp
  have ih: "foldl (draw_cell lg pos cs row) (g, s) [0..<n] = (?gn, ?sn)"
    using Suc.IH n by simp
  have len: "row < length ?gn" "n < length (?gn ! row)"
    using assms(1) n by simp_all
  have old: "?gn ! row ! n = g ! row ! n"
    using assms(1) n by (simp add: nth_append)
  have grid: "?gn[row := (?gn ! row)[n := ?f n]]
                = g[row := map ?f [0..<Suc n] @ drop (Suc n) (g ! row)]"
    using assms(1) row_step[OF n, of ?f] by simp
  have ins: "inside ?sn = inside s"
    by (simp add: inside_def fun_eq_iff)
  let ?P = "\<lambda>m x y. if inside s x y \<and> 0 < cs \<and> nat (y div cs) = row \<and> nat (x div cs) < m
                      then (?p (nat (x div cs)), ?p (nat (x div cs)), ?p (nat (x div cs)))
                      else pix s x y"
  have px: "(if inside s x y \<and> int n * cs \<le> x \<and> x < int n * cs + cs
                  \<and> int row * cs \<le> y \<and> y < int row * cs + cs
             then (?p n, ?p n, ?p n) else pix ?sn x y) = ?P (Suc n) x y" for x y
  proof (cases "inside s x y")
    case True
    with rect_step[OF True, of n cs row] show ?thesis
      by (auto simp add: less_Suc_eq)
  next
    case False
    then show ?thesis by simp
  qed
  have surf: "draw_rect ?sn (?p n, ?p n, ?p n) (int n * cs, int row * cs, cs, cs)
                = s\<lparr>pix := ?P (Suc n)\<rparr>"
    by (simp add: draw_rect_def ins px)
  have "foldl (draw_cell lg pos cs row) (g, s) [0..<Suc n]
          = draw_cell lg pos cs row (?gn, ?sn) n"
    using ih by simp
  also have "\<dots> = (?gn[row := (?gn ! row)[n := ?f n]],
                    draw_rect ?sn (?p n, ?p n, ?p n) (int n * cs, int row * cs, cs, cs))"
    using draw_cell_eq[OF len, of lg pos cs ?sn] old by simp
  finally show ?case
    unfolding grid surf .
qed


lemma draw_row_eq:
  assumes "row < length g"
  shows "draw_row lg pos cs (g, s) row =
           (g[row := map (\<lambda>c. stored lg pos cs row c (g ! row ! c)) [0..<length (g ! row)]],
            s\<lparr>pix := (\<lambda>x y. if inside s x y \<and> 0 < cs \<and> nat (y div cs) = row
                                \<and> nat (x div cs) < length (g ! row)
                           then (painted lg pos cs row (nat (x div cs)) (g ! row ! nat (x div cs)),
                                 painted lg pos cs row (nat (x div cs)) (g ! row ! nat (x div cs)),
                                 painted lg pos cs row (nat (x div cs)) (g ! row ! nat (x div cs)))
                           else pix s x y)\<rparr>)"
  using draw_row_prefix[OF assms order_refl, of lg pos cs s]
  by (simp add: draw_row_def)

lemma draw_rows_prefix:
  assumes "m \<le> length g"
  shows "foldl (draw_row lg pos cs) (g, s) [0..<m] =
           (map (\<lambda>r. map (\<lambda>c. stored lg pos cs r c (g ! r ! c)) [0..<length (g ! r)]) [0..<m]
              @ drop m g,
            s\<lparr>pix := (\<lambda>x y. if inside s x y \<and> 0 < cs \<and> nat (y div cs) < m
                                \<and> nat (x div cs) < length (g ! nat (y div cs))
                           then (painted lg pos cs (nat (y div cs)) (nat (x div cs))
                                   (g ! nat (y div cs) ! nat (x div cs)),
                                 painted lg pos cs (nat (y div cs)) (nat (x div cs))
                                   (g ! nat (y div cs) ! nat (x div cs)),
                                 painted lg pos cs (nat (y div cs)) (nat (x div cs))
                                   (g ! nat (y div cs) ! nat (x div cs)))
                           else pix s x y)\<rparr>)"
  using assms
proof (induction m)
  case 0
  then show ?case by simp
next
  case (Suc m)
  let ?f = "\<lambda>r. map (\<lambda>c. stored lg pos cs r c (g ! r ! c)) [0..<length (g ! r)]"
  let ?p = "\<lambda>r c. painted lg pos cs r c (g ! r ! c)"
  let ?P = "\<lambda>k x y. if inside s x y \<and> 0 < cs \<and> nat (y div cs) < k
                            \<and> nat (x div cs) < length (g ! nat (y div cs))
                      then (?p (nat (y div cs)) (nat (x div cs)), ?p (nat (y div cs)) (nat (x div cs)),
                            ?p (nat (y div cs)) (nat (x div cs)))
                      else pix s x y"
  let ?gm = "map ?f [0..<m] @ drop m g"
  let ?sm = "s\<lparr>pix := ?P m\<rparr>"
  have m: "m < length g" using Suc.prems by simp
  have ih: "foldl (draw_row lg pos cs) (g, s) [0..<m] = (?gm, ?sm)"
    using Suc.IH m by simp
  have len: "m < length ?gm" using m by simp
  have old: "?gm ! m = g ! m" using m by (simp add: nth_append)
  have grid: "?gm[m := ?f m] = map ?f [0..<Suc m] @ drop (Suc m) g"
    by (rule row_step[OF m])
  have ins: "inside ?sm = inside s"
    by (simp add: inside_def fun_eq_iff)
  have px: "(if inside s x y \<and> 0 < cs \<and> nat (y div cs) = m \<and> nat (x div cs) < length (g ! m)
             then (?p m (nat (x div cs)), ?p m (nat (x div cs)), ?p m (nat (x div cs)))
             else pix ?sm x y) = ?P (Suc m) x y" for x y
    by (auto simp add: less_Suc_eq)
  have "foldl (draw_row lg pos cs) (g, s) [0..<Suc m] = draw_row lg pos cs (?gm, ?sm) m"
    using ih by simp
  also have "\<dots> = (?gm[m := ?f m], s\<lparr>pix := ?P (Suc m)\<rparr>)"
    unfolding draw_row_eq[OF len] old by (simp add: ins px)
  finally show ?case
    unfolding grid .
qed

lemma draw_cells_eq:
  "draw_cells lg pos cs (g, s) =
     (map (\<lambda>r. map (\<lambda>c. stored lg pos cs r c (g ! r ! c)) [0..<length (g ! r)]) [0..<length g],
      s\<lparr>pix := (\<lambda>x y. if inside s x y \<and> 0 < cs \<and> nat (y div cs) < length g
                          \<and> nat (x div cs) < length (g ! nat (y div cs))
                     then (painted lg pos cs (nat (y div cs)) (nat (x div cs))
                             (g ! nat (y div cs) ! nat (x div cs)),
                           painted lg pos cs (nat (y div cs)) (nat (x div cs))
                             (g ! nat (y div cs) ! nat (x div cs)),
                           painted lg pos cs (nat (y div cs)) (nat (x div cs))
                             (g ! nat (y div cs) ! nat (x div cs)))
                     else pix s x y)\<rparr>)"
  using draw_rows_prefix[OF order_refl, of lg pos cs g s]
  by (simp add: draw_cells_def)

lemma draw_grid:
  "grid (fst (draw covers ov screen pos)) =
     map (\<lambda>r. map (\<lambda>c. stored (light ov) pos (cell_size ov) r c (grid ov ! r ! c))
                 [0..<length (grid ov ! r)]) [0..<length (grid ov)]"
  by (simp add: draw_def Let_def draw_cells_eq)

lemma draw_light: "light (fst (draw covers ov screen pos)) = light ov"
  by (simp add: draw_def Let_def)

lemma draw_cell_size: "cell_size (fst (draw covers ov screen pos)) = cell_size ov"
  by (simp add: draw_def Let_def)

lemma draw_grid_length: "length (grid (fst (draw covers ov screen pos))) = length (grid ov)"
  by (simp add: draw_grid)

lemma draw_grid_row_length:
  "row < length (grid ov) \<Longrightarrow>
     length (grid (fst (draw covers ov screen pos)) ! row) = length (grid ov ! row)"
  by (simp add: draw_grid)

lemma draw_grid_cell:
  "row < length (grid ov) \<Longrightarrow> col < length (grid ov ! row) \<Longrightarrow>
     grid (fst (draw covers ov screen pos)) ! row ! col =
       stored (light ov) pos (cell_size ov) row col (grid ov ! row ! col)"
  by (simp add: draw_grid)

subsection \<open>The constructors and \<open>update_glow\<close> in closed form\<close>

lemma c_int_small: "- (2 ^ 31) \<le> v \<Longrightarrow> v < 2 ^ 31 \<Longrightarrow> c_int v = Some v"
proof -
  assume a: "- (2 ^ 31) \<le> v" "v < 2 ^ 31"
  then have "0 \<le> v + 2 ^ 31" "v + 2 ^ 31 < 2 ^ 32" by simp_all
  then have "(v + 2 ^ 31) mod 2 ^ 32 = v + 2 ^ 31"
    by (rule mod_pos_pos_trivial)
  then show ?thesis using a by (simp add: c_int_def)
qed

lemma c_int_2_31: "c_int (2 ^ 31) = Some (- (2 ^ 31))"
  by (simp add: c_int_def)

lemma c_int_2_32: "c_int (2 ^ 32) = Some 0"
  by (simp add: c_int_def)

lemma new_mask_Inr:
  assumes "new_mask fits sz = Inr m"
  shows "c_int (fst sz) = Some (mask_w m) \<and> c_int (snd sz) = Some (mask_h m) \<and>
         0 \<le> mask_w m \<and> 0 \<le> mask_h m \<and> fits (mask_w m, mask_h m) \<and> rings m = []"
  using assms by (auto simp add: new_mask_def split: option.splits if_splits)

lemma new_mask_eq:
  assumes "0 \<le> w" "w < 2 ^ 31" "0 \<le> h" "h < 2 ^ 31" "fits (w, h)"
  shows "new_mask fits (w, h) = Inr \<lparr>mask_w = w, mask_h = h, rings = []\<rparr>"
  using assms by (simp add: new_mask_def c_int_small)

lemma ring_fold:
  "foldl (ring r g step) m [0..<n] =
     m\<lparr>rings := rings m @
        map (\<lambda>i. ((clamp (int i * g) 0 255, clamp (int i * g) 0 255, clamp (int i * g) 0 255),
                   mask_center m, r - int i * step)) [0..<n]\<rparr>"
proof (induction n)
  case 0
  then show ?case by simp
next
  case (Suc n)
  then show ?case
    by (simp add: ring_def draw_circle_def mask_center_def Let_def)
qed

lemma update_glow_Inl:
  "new_mask fits (radius lg * 2, radius lg * 2) = Inl e \<Longrightarrow> update_glow fits lg = Inl e"
  by (simp add: update_glow_def Let_def)

lemma update_glow_Inr:
  assumes "new_mask fits (radius lg * 2, radius lg * 2) = Inr m"
  shows "update_glow fits lg =
           Inr (lg\<lparr>glow := clamp (glow lg + 1) 0 255,
                   surf := m\<lparr>rings :=
                     map (\<lambda>i. ((clamp (int i * clamp (glow lg + 1) 0 255) 0 255,
                                 clamp (int i * clamp (glow lg + 1) 0 255) 0 255,
                                 clamp (int i * clamp (glow lg + 1) 0 255) 0 255),
                                mask_center m, radius lg - int i * 3)) [0..<25]\<rparr>\<rparr>)"
  using new_mask_Inr[OF assms]
  by (simp add: update_glow_def Let_def assms ring_fold layers_def)

lemma update_glow_eq:
  assumes "0 \<le> radius lg" "radius lg < 2 ^ 30" "fits (radius lg * 2, radius lg * 2)"
  shows "update_glow fits lg =
           Inr (lg\<lparr>glow := clamp (glow lg + 1) 0 255,
                   surf := \<lparr>mask_w = radius lg * 2, mask_h = radius lg * 2,
                            rings = map (\<lambda>i. ((clamp (int i * clamp (glow lg + 1) 0 255) 0 255,
                                                clamp (int i * clamp (glow lg + 1) 0 255) 0 255,
                                                clamp (int i * clamp (glow lg + 1) 0 255) 0 255),
                                               (radius lg, radius lg), radius lg - int i * 3))
                                    [0..<25]\<rparr>\<rparr>)"
proof -
  have "new_mask fits (radius lg * 2, radius lg * 2)
          = Inr \<lparr>mask_w = radius lg * 2, mask_h = radius lg * 2, rings = []\<rparr>"
    using assms by (intro new_mask_eq) simp_all
  from update_glow_Inr[OF this] show ?thesis
    by (simp add: mask_center_def)
qed

lemma LightGlow_init_Inl:
  "new_mask fits (r * 2, r * 2) = Inl e \<Longrightarrow> LightGlow_init fits r now = Inl e"
  by (simp add: LightGlow_init_def)

lemma LightGlow_init_Inr:
  assumes "new_mask fits (r * 2, r * 2) = Inr m"
  shows "LightGlow_init fits r now =
           Inr \<lparr>radius = r,
                surf = m\<lparr>rings :=
                  map (\<lambda>i. ((clamp (int i * 12) 0 255, clamp (int i * 12) 0 255,
                              clamp (int i * 12) 0 255),
                             mask_center m, r - int i * 3)) [0..<25]\<rparr>,
                glow = 12, blink_timer = now, is_blinking = False, blink_k = 1\<rparr>"
proof -
  let ?lg = "\<lparr>radius = r, surf = foldl (ring r 11 5) m [0..<layers], glow = 11,
              blink_timer = now, is_blinking = False, blink_k = 1\<rparr>"
  have c: "clamp (12::int) 0 255 = 12" by (simp add: clamp_def)
  have "new_mask fits (radius ?lg * 2, radius ?lg * 2) = Inr m" using assms by simp
  from update_glow_Inr[OF this] show ?thesis
    by (simp add: LightGlow_init_def assms c)
qed

lemma LightGlow_init_eq:
  assumes "0 \<le> r" "r < 2 ^ 30" "fits (r * 2, r * 2)"
  shows "LightGlow_init fits r now =
           Inr \<lparr>radius = r,
                surf = \<lparr>mask_w = r * 2, mask_h = r * 2,
                        rings = map (\<lambda>i. ((clamp (int i * 12) 0 255, clamp (int i * 12) 0 255,
                                            clamp (int i * 12) 0 255),
                                           (r, r), r - int i * 3)) [0..<25]\<rparr>,
                glow = 12, blink_timer = now, is_blinking = False, blink_k = 1\<rparr>"
proof -
  have "new_mask fits (r * 2, r * 2) = Inr \<lparr>mask_w = r * 2, mask_h = r * 2, rings = []\<rparr>"
    using assms by (intro new_mask_eq) simp_all
  from LightGlow_init_Inr[OF this] show ?thesis
    by (simp add: mask_center_def)
qed

lemma DarkOverlay_init_Inr:
  assumes "DarkOverlay_init fits SIZE now = Inr ov"
  shows "ov = \<lparr>dark_surf = \<lparr>width = fst SIZE, height = snd SIZE, pix = (\<lambda>x y. (0, 0, 0))\<rparr>,
               light = projr (LightGlow_init fits 125 now), cell_size = 32,
               grid = replicate (nat (snd SIZE div 32)) (replicate (nat (fst SIZE div 32)) 0)\<rparr>"
  using assms
  by (auto simp add: DarkOverlay_init_def new_surface_def Let_def split: sum.splits if_splits)

lemma DarkOverlay_init_eq:
  assumes "0 \<le> w" "0 \<le> h" "fits (w, h)" "fits (250, 250)"
  shows "DarkOverlay_init fits (w, h) now =
           Inr \<lparr>dark_surf = \<lparr>width = w, height = h, pix = (\<lambda>x y. (0, 0, 0))\<rparr>,
                light = projr (LightGlow_init fits 125 now), cell_size = 32,
                grid = replicate (nat (h div 32)) (replicate (nat (w div 32)) 0)\<rparr>"
  using assms
  by (simp add: DarkOverlay_init_def new_surface_def LightGlow_init_eq Let_def)

lemma LightGlow_init_cases:
  assumes "LightGlow_init fits r now = Inr lg"
  shows "\<exists>m. new_mask fits (r * 2, r * 2) = Inr m \<and>
             lg = \<lparr>radius = r,
                   surf = m\<lparr>rings :=
                     map (\<lambda>i. ((clamp (int i * 12) 0 255, clamp (int i * 12) 0 255,
                                 clamp (int i * 12) 0 255),
                                mask_center m, r - int i * 3)) [0..<25]\<rparr>,
                   glow = 12, blink_timer = now, is_blinking = False, blink_k = 1\<rparr>"
proof (cases "new_mask fits (r * 2, r * 2)")
  case (Inl e)
  from LightGlow_init_Inl[OF this, of now] assms show ?thesis by simp
next
  case (Inr m)
  from LightGlow_init_Inr[OF this, of now] assms Inr show ?thesis by simp
qed

lemma update_glow_cases:
  assumes "update_glow fits lg = Inr lg'"
  shows "\<exists>m. new_mask fits (radius lg * 2, radius lg * 2) = Inr m \<and>
             lg' = lg\<lparr>glow := clamp (glow lg + 1) 0 255,
                      surf := m\<lparr>rings :=
                        map (\<lambda>i. ((clamp (int i * clamp (glow lg + 1) 0 255) 0 255,
                                    clamp (int i * clamp (glow lg + 1) 0 255) 0 255,
                                    clamp (int i * clamp (glow lg + 1) 0 255) 0 255),
                                   mask_center m, radius lg - int i * 3)) [0..<25]\<rparr>\<rparr>"
proof (cases "new_mask fits (radius lg * 2, radius lg * 2)")
  case (Inl e)
  from update_glow_Inl[OF this] assms show ?thesis by simp
next
  case (Inr m)
  from update_glow_Inr[OF this] assms Inr show ?thesis by simp
qed

lemma mask_center_in_range:
  assumes "new_mask fits (r * 2, r * 2) = Inr m" "0 \<le> r" "r < 2 ^ 30"
  shows "mask_w m = r * 2" "mask_h m = r * 2" "mask_center m = (r, r)"
proof -
  have "c_int (r * 2) = Some (r * 2)"
    using assms(2,3) by (intro c_int_small) simp_all
  with new_mask_Inr[OF assms(1)] show "mask_w m = r * 2" "mask_h m = r * 2"
    by simp_all
  then show "mask_center m = (r, r)" by (simp add: mask_center_def)
qed

subsection \<open>The sample inputs\<close>

lemma one_cell_fields:
  "grid (one_cell k) = [[k]]" "cell_size (one_cell k) = 32"
  "radius (light (one_cell k)) = 125" "glow (light (one_cell k)) = 12"
  "dark_surf (one_cell k) = \<lparr>width = 32, height = 32, pix = (\<lambda>x y. (0, 0, 0))\<rparr>"
  by (simp_all add: one_cell_def DarkOverlay_init_eq LightGlow_init_eq sample_fits_def)

lemma far_frames_unlit:
  "\<forall>f\<in>set (far_frames n). \<not> lit (cell_center (one_cell k) 0 0) (snd f) (radius (light (one_cell k)))"
  by (simp add: far_frames_def one_cell_fields cell_center_def lit_code)

subsection \<open>Runs of frames\<close>

lemma stored_lit:
  "lit (int col * cs + cs div 2, int row * cs + cs div 2) pos (radius lg) \<Longrightarrow>
     stored lg pos cs row col k = 55"
  by (simp add: stored_def)

lemma stored_unlit:
  "\<not> lit (int col * cs + cs div 2, int row * cs + cs div 2) pos (radius lg) \<Longrightarrow>
     stored lg pos cs row col k = decay k"
  by (simp add: stored_def)

lemma stored_floor: "0 < k \<Longrightarrow> 25 \<le> stored lg pos cs row col k"
  using decay_range[of k] by (simp add: stored_def)

lemma draw_frames_light: "light (draw_frames covers ov fs) = light ov"
  by (induction fs arbitrary: ov) (simp_all add: draw_light)

lemma draw_frames_cell_size: "cell_size (draw_frames covers ov fs) = cell_size ov"
  by (induction fs arbitrary: ov) (simp_all add: draw_cell_size)

lemma draw_frames_snoc:
  "draw_frames covers ov (fs @ [f]) = fst (draw covers (draw_frames covers ov fs) (fst f) (snd f))"
  by (induction fs arbitrary: ov) simp_all

lemma draw_frames_shape:
  "length (grid (draw_frames covers ov fs)) = length (grid ov) \<and>
   (\<forall>row < length (grid ov). length (grid (draw_frames covers ov fs) ! row) = length (grid ov ! row))"
proof (induction fs arbitrary: ov)
  case Nil
  then show ?case by simp
next
  case (Cons f fs)
  then show ?case by (simp add: draw_grid_length draw_grid_row_length)
qed

lemma draw_frames_floor:
  assumes "row < length (grid ov)" "col < length (grid ov ! row)" "25 \<le> grid ov ! row ! col"
  shows "25 \<le> grid (draw_frames covers ov fs) ! row ! col"
  using assms
proof (induction fs arbitrary: ov)
  case Nil
  then show ?case by simp
next
  case (Cons f fs)
  let ?ov = "fst (draw covers ov (fst f) (snd f))"
  have "25 \<le> grid ?ov ! row ! col"
    using Cons.prems by (simp add: draw_grid_cell stored_floor)
  then show ?case
    using Cons.prems Cons.IH[of ?ov] by (simp add: draw_grid_length draw_grid_row_length)
qed

lemma draw_frames_unlit:
  assumes "row < length (grid ov)" "col < length (grid ov ! row)"
    and "\<forall>f\<in>set fs. \<not> lit (cell_center ov row col) (snd f) (radius (light ov))"
  shows "grid (draw_frames covers ov fs) ! row ! col = (decay ^^ length fs) (grid ov ! row ! col)"
  using assms
proof (induction fs arbitrary: ov)
  case Nil
  then show ?case by simp
next
  case (Cons f fs)
  let ?ov = "fst (draw covers ov (fst f) (snd f))"
  have cc: "cell_center ?ov row col = cell_center ov row col"
    by (simp add: cell_center_def draw_cell_size)
  have first: "grid ?ov ! row ! col = decay (grid ov ! row ! col)"
    using Cons.prems by (simp add: draw_grid_cell cell_center_def stored_unlit)
  have "grid (draw_frames covers ?ov fs) ! row ! col = (decay ^^ length fs) (grid ?ov ! row ! col)"
    using Cons.prems by (intro Cons.IH) (simp_all add: draw_grid_length draw_grid_row_length cc draw_light)
  then show ?case
    by (simp add: first funpow_swap1)
qed

subsection \<open>Repeated calls of \<open>update_glow\<close>\<close>


lemma update_glow_times_saturated:
  assumes "\<not> isl (new_mask fits (radius lg * 2, radius lg * 2))" and "glow lg = 255"
  shows "\<not> isl (update_glow_times fits n lg) \<and> glow (projr (update_glow_times fits n lg)) = 255"
  using assms
proof (induction n arbitrary: lg)
  case 0
  then show ?case by simp
next
  case (Suc n)
  obtain m where m: "new_mask fits (radius lg * 2, radius lg * 2) = Inr m"
    using Suc.prems(1) by (cases "new_mask fits (radius lg * 2, radius lg * 2)") simp_all
  let ?lg = "lg\<lparr>glow := clamp (glow lg + 1) 0 255,
                   surf := m\<lparr>rings :=
                     map (\<lambda>i. ((clamp (int i * clamp (glow lg + 1) 0 255) 0 255,
                                 clamp (int i * clamp (glow lg + 1) 0 255) 0 255,
                                 clamp (int i * clamp (glow lg + 1) 0 255) 0 255),
                                mask_center m, radius lg - int i * 3)) [0..<25]\<rparr>\<rparr>"
  have u: "update_glow fits lg = Inr ?lg" by (rule update_glow_Inr[OF m])
  have "\<not> isl (new_mask fits (radius ?lg * 2, radius ?lg * 2))" "glow ?lg = 255"
    using Suc.prems m by (simp_all add: clamp_def)
  from Suc.IH[OF this] show ?case by (simp add: u)
qed



subsection \<open>Multiplying onto the screen\<close>

lemma colour_mult_black: "colour_mult (0, 0, 0) c = (0, 0, 0)"
  by (cases c) (simp add: colour_mult_def blend_mult_def)

lemma blit_mult_black:
  assumes "\<forall>x y. pix dst x y = (0, 0, 0)"
  shows "blit_mult dst src topleft = dst"
proof -
  have "(\<lambda>x y. if inside dst x y \<and> inside src (x - fst topleft) (y - snd topleft)
               then colour_mult (pix dst x y) (pix src (x - fst topleft) (y - snd topleft))
               else pix dst x y) = pix dst"
    by (intro ext) (simp add: assms colour_mult_black)
  then show ?thesis by (simp add: blit_mult_def)
qed

lemma blend_mult_full: "0 \<le> d \<Longrightarrow> d \<le> 255 \<Longrightarrow> blend_mult d 255 = d"
proof -
  assume d: "0 \<le> d" "d \<le> 255"
  have "d * 255 + 255 = 256 * d + (255 - d)" by simp
  then have "(d * 255 + 255) div 256 = d"
    using d by (intro int_div_pos_eq[where r = "255 - d"]) simp_all
  then show ?thesis by (simp add: blend_mult_def)
qed

lemma blend_mult_white: "0 \<le> d \<Longrightarrow> d \<le> 255 \<Longrightarrow> blend_mult 255 d = d"
proof -
  assume d: "0 \<le> d" "d \<le> 255"
  have "255 * d + 255 = 256 * d + (255 - d)" by simp
  then have "(255 * d + 255) div 256 = d"
    using d by (intro int_div_pos_eq[where r = "255 - d"]) simp_all
  then show ?thesis by (simp add: blend_mult_def)
qed

lemma colour_mult_full:
  assumes "byte_colour c"
  shows "colour_mult c (255, 255, 255) = c"
proof -
  obtain r g b where c: "c = (r, g, b)" by (cases c)
  with assms show ?thesis
    by (simp add: byte_colour_def colour_mult_def blend_mult_full)
qed

lemma py_int_decay_255: "py_int (decay 255) = 254"
  by code_simp

lemma painted_255:
  "painted lg pos cs row col 255 =
     (if lit (int col * cs + cs div 2, int row * cs + cs div 2) pos (radius lg)
      then clamp (55 - (11 - glow lg) * 2) 0 255 else 254)"
  by (simp add: painted_def py_int_decay_255 clamp_def)

lemma draw_cells_inside:
  "inside (snd (draw_cells lg pos cs (g, s))) = inside s"
  by (simp add: draw_cells_eq inside_def fun_eq_iff)

lemma blit_max_inside: "inside (blit_max dst src topleft) = inside dst"
  by (simp add: blit_max_def inside_def fun_eq_iff)

lemma draw_dark_surf:
  "dark_surf (fst (draw covers ov screen pos))
     = blit_max (snd (draw_cells (light ov) pos (cell_size ov) (grid ov, dark_surf ov)))
         (rasterise covers (surf (light ov)))
         (fst pos - mask_w (surf (light ov)) div 2, snd pos - mask_h (surf (light ov)) div 2)"
  by (simp add: draw_def Let_def rasterise_def)

lemma draw_dark_surf_inside:
  "inside (dark_surf (fst (draw covers ov screen pos))) = inside (dark_surf ov)"
  by (simp add: draw_dark_surf blit_max_inside draw_cells_inside)

lemma draw_screen:
  "snd (draw covers ov screen pos)
     = blit_mult screen (dark_surf (fst (draw covers ov screen pos))) (0, 0)"
  by (simp add: draw_def Let_def)

lemma draw_screen_pixel:
  "pix (snd (draw covers ov screen pos)) x y =
     (if inside screen x y \<and> inside (dark_surf ov) x y
      then colour_mult (pix screen x y) (pix (dark_surf (fst (draw covers ov screen pos))) x y)
      else pix screen x y)"
  unfolding draw_screen[of covers ov screen pos]
  by (simp add: blit_mult_def draw_dark_surf_inside)

lemma draw_cells_pixel_255:
  assumes "row < length (grid ov)" "col < length (grid ov ! row)" "grid ov ! row ! col = 255"
    and "inside (dark_surf ov) x y"
    and "int col * cell_size ov \<le> x \<and> x < int col * cell_size ov + cell_size ov"
    and "int row * cell_size ov \<le> y \<and> y < int row * cell_size ov + cell_size ov"
  shows "pix (snd (draw_cells (light ov) pos (cell_size ov) (grid ov, dark_surf ov))) x y =
           (let v = (if lit (cell_center ov row col) pos (radius (light ov))
                     then clamp (55 - (11 - glow (light ov)) * 2) 0 255 else 254)
            in (v, v, v))"
proof -
  from assms(5,6) rect_step[OF assms(4), of col "cell_size ov" row]
  have c: "0 < cell_size ov" "nat (y div cell_size ov) = row" "nat (x div cell_size ov) = col"
    by simp_all
  show ?thesis
    using assms(1-4) c by (simp add: draw_cells_eq painted_255 cell_center_def Let_def)
qed

subsection \<open>The model at work\<close>

text \<open>
  The numbers are those of the interpreter: \<open>55 - 0.1\<close>, three decays of 55, and one call
  of \<open>draw\<close> on a cell holding 200, the light far off and on the cell.
\<close>

lemma float_sub_55: "float_sub 55 tenth = 7726488110707507 / 140737488355328"
  by code_simp

lemma decay_thrice: "(decay ^^ 3) 55 = 7698340613036441 / 140737488355328"
  by code_simp

lemma draw_far_example:
  "grid (fst (draw disc (one_cell 200) black_screen (1000, 1000))) = [[7033355980557517 / 35184372088832]]"
  by code_simp

lemma draw_near_example:
  "grid (fst (draw disc (one_cell 200) black_screen (16, 16))) = [[55]]"
  by code_simp

lemma draw_pixel_example:
  "pix (snd (draw_cells (light (one_cell 200)) (1000, 1000) 32 ([[200]], dark_surf (one_cell 200)))) 3 4
     = (199, 199, 199)"
  by code_simp

text \<open>
  A screen that is not black, over the cell holding 255. With the light far off the cell is
  painted 254 and the screen is darkened; with the light on the cell the innermost rings of
  the mask lift the overlay to 255 there, and the screen keeps its colour.
\<close>

lemma draw_tinted_far_example:
  "pix (snd (draw disc (one_cell 255) tinted_screen (1000, 1000))) 3 4 = (199, 100, 1)"
  by code_simp

lemma draw_tinted_near_layer:
  "pix (dark_surf (fst (draw disc (one_cell 255) tinted_screen (16, 16)))) 3 4 = (255, 255, 255)"
  by code_simp

lemma draw_tinted_near_example:
  "pix (snd (draw disc (one_cell 255) tinted_screen (16, 16))) 3 4 = (200, 100, 1)"
  by code_simp

section \<open>The claims\<close>

subsection \<open>C1: a cell inside the light\<close>

text \<open>
  C1, as the code has it. For a cell of the grid whose centre is at a distance below the
  light's radius from the light position, one call of \<open>draw\<close> stores the brightness 55 in
  the grid and paints the cell's square with the grey level \<open>55 - (11 - glow) * 2\<close> clamped to
  \<open>[0, 255]\<close>. Neither depends on what the cell held, so both override the decay computed
  earlier in the same pass. The offset goes into the painted grey level only.
\<close>

theorem lit_cell_stored_and_painted:
  assumes "row < length (grid ov)" and "col < length (grid ov ! row)"
    and "lit (cell_center ov row col) pos (radius (light ov))"
  shows "grid (fst (draw covers ov screen pos)) ! row ! col = 55 \<and>
         (\<forall>x y. inside (dark_surf ov) x y
                 \<and> int col * cell_size ov \<le> x \<and> x < int col * cell_size ov + cell_size ov
                 \<and> int row * cell_size ov \<le> y \<and> y < int row * cell_size ov + cell_size ov
            \<longrightarrow> pix (snd (draw_cells (light ov) pos (cell_size ov) (grid ov, dark_surf ov))) x y
                  = (clamp (55 - (11 - glow (light ov)) * 2) 0 255,
                     clamp (55 - (11 - glow (light ov)) * 2) 0 255,
                     clamp (55 - (11 - glow (light ov)) * 2) 0 255))"
proof (intro conjI allI impI)
  show "grid (fst (draw covers ov screen pos)) ! row ! col = 55"
    using assms by (simp add: draw_grid_cell cell_center_def stored_lit)
next
  fix x y
  assume a: "inside (dark_surf ov) x y
                 \<and> int col * cell_size ov \<le> x \<and> x < int col * cell_size ov + cell_size ov
                 \<and> int row * cell_size ov \<le> y \<and> y < int row * cell_size ov + cell_size ov"
  then have ins: "inside (dark_surf ov) x y" by simp
  from a rect_step[OF ins, of col "cell_size ov" row]
  have c: "0 < cell_size ov" "nat (y div cell_size ov) = row" "nat (x div cell_size ov) = col"
    by simp_all
  have p: "painted (light ov) pos (cell_size ov) row col k
             = clamp (55 - (11 - glow (light ov)) * 2) 0 255" for k
    using assms(3) by (simp add: painted_def cell_center_def)
  show "pix (snd (draw_cells (light ov) pos (cell_size ov) (grid ov, dark_surf ov))) x y
          = (clamp (55 - (11 - glow (light ov)) * 2) 0 255,
             clamp (55 - (11 - glow (light ov)) * 2) 0 255,
             clamp (55 - (11 - glow (light ov)) * 2) 0 255)"
    using assms(1,2) ins c by (simp add: draw_cells_eq p)
qed

text \<open>The theorem at the one-cell overlay holding 200, the light on the cell's centre.\<close>

theorem lit_cell_stored_and_painted_witness:
  "lit (cell_center (one_cell 200) 0 0) (16, 16) (radius (light (one_cell 200))) \<and>
   grid (fst (draw disc (one_cell 200) black_screen (16, 16))) ! 0 ! 0 = 55 \<and>
   pix (snd (draw_cells (light (one_cell 200)) (16, 16) 32 ([[200]], dark_surf (one_cell 200)))) 3 4
     = (57, 57, 57)"
proof -
  have l: "lit (cell_center (one_cell 200) 0 0) (16, 16) (radius (light (one_cell 200)))"
    by (simp add: one_cell_fields cell_center_def lit_code)
  have r: "(0::nat) < length (grid (one_cell 200))"
    and c: "(0::nat) < length (grid (one_cell 200) ! 0)"
    by (simp_all add: one_cell_fields)
  from lit_cell_stored_and_painted[OF r c l, of disc black_screen]
  have g: "grid (fst (draw disc (one_cell 200) black_screen (16, 16))) ! 0 ! 0 = 55"
    and p: "\<And>x y. inside (dark_surf (one_cell 200)) x y
                 \<and> int 0 * cell_size (one_cell 200) \<le> x
                 \<and> x < int 0 * cell_size (one_cell 200) + cell_size (one_cell 200)
                 \<and> int 0 * cell_size (one_cell 200) \<le> y
                 \<and> y < int 0 * cell_size (one_cell 200) + cell_size (one_cell 200)
            \<Longrightarrow> pix (snd (draw_cells (light (one_cell 200)) (16, 16) (cell_size (one_cell 200))
                     (grid (one_cell 200), dark_surf (one_cell 200)))) x y
                  = (clamp (55 - (11 - glow (light (one_cell 200))) * 2) 0 255,
                     clamp (55 - (11 - glow (light (one_cell 200))) * 2) 0 255,
                     clamp (55 - (11 - glow (light (one_cell 200))) * 2) 0 255)"
    by blast+
  have "pix (snd (draw_cells (light (one_cell 200)) (16, 16) 32 ([[200]], dark_surf (one_cell 200)))) 3 4
     = (57, 57, 57)"
    using p[of 3 4] by (simp add: one_cell_fields inside_def clamp_def)
  with l g show ?thesis by simp
qed

text \<open>
  C1 as stated fails for the brightness of the cell itself: with the counter at 12, as the
  constructor leaves it, the claimed value is 57, and the cell holds 55 after the call.
\<close>

theorem stored_is_not_offset_counterexample:
  "lit (cell_center (one_cell 200) 0 0) (16, 16) (radius (light (one_cell 200))) \<and>
   grid (fst (draw disc (one_cell 200) black_screen (16, 16))) ! 0 ! 0
     \<noteq> of_int (clamp (55 - (11 - glow (light (one_cell 200))) * 2) 0 255)"
  by (simp add: draw_grid_cell one_cell_fields cell_center_def lit_code stored_def clamp_def)

subsection \<open>C2: the floor of 25\<close>

text \<open>
  C2. A cell of the grid whose brightness is greater than 0 holds at least 25 after every
  later call of \<open>draw\<close>: after any non-empty run of frames, wherever the light is in each of
  them, inside the cell's range or not.
\<close>

theorem floor_once_lit:
  assumes "row < length (grid ov)" and "col < length (grid ov ! row)"
    and "0 < grid ov ! row ! col" and "fs \<noteq> []"
  shows "25 \<le> grid (draw_frames covers ov fs) ! row ! col"
proof -
  obtain f fs' where fs: "fs = f # fs'"
    using assms(4) by (cases fs) simp_all
  let ?ov = "fst (draw covers ov (fst f) (snd f))"
  have "25 \<le> grid ?ov ! row ! col"
    using assms(1-3) by (simp add: draw_grid_cell stored_floor)
  then have "25 \<le> grid (draw_frames covers ?ov fs') ! row ! col"
    using assms(1,2) by (intro draw_frames_floor) (simp_all add: draw_grid_length draw_grid_row_length)
  then show ?thesis by (simp add: fs)
qed

text \<open>
  The theorem at a cell holding one half, over three frames: the light far off, then on the
  cell, then far off again.
\<close>

theorem floor_once_lit_witness:
  "(0::rat) < 1 / 2 \<and>
   25 \<le> grid (draw_frames disc (one_cell (1 / 2))
              [(black_screen, (1000, 1000)), (black_screen, (16, 16)), (black_screen, (1000, 1000))])
          ! 0 ! 0"
  using floor_once_lit[of 0 "one_cell (1 / 2)" 0
      "[(black_screen, (1000, 1000)), (black_screen, (16, 16)), (black_screen, (1000, 1000))]" disc]
  by (simp add: one_cell_fields)

subsection \<open>C3: the decay outside the light\<close>

text \<open>
  C3. Take a cell of the grid whose brightness is greater than 25 and a run of frames in
  none of which the cell's centre is within the light's radius. Then one more such frame
  never raises the cell's brightness, the brightness never goes below 25, and from the
  2302nd frame on it is exactly 25: the sequence is non-increasing, reaches 25 and stays
  there. The numbers are those of the float arithmetic of the source.
\<close>

theorem unlit_decay_settles:
  assumes "row < length (grid ov)" and "col < length (grid ov ! row)"
    and "25 < grid ov ! row ! col"
    and "\<forall>f\<in>set fs. \<not> lit (cell_center ov row col) (snd f) (radius (light ov))"
  shows "(\<forall>f :: surface \<times> int \<times> int.
            \<not> lit (cell_center ov row col) (snd f) (radius (light ov)) \<longrightarrow>
            grid (draw_frames covers ov (fs @ [f])) ! row ! col
              \<le> grid (draw_frames covers ov fs) ! row ! col) \<and>
         25 \<le> grid (draw_frames covers ov fs) ! row ! col \<and>
         (2302 \<le> length fs \<longrightarrow> grid (draw_frames covers ov fs) ! row ! col = 25)"
proof (intro conjI allI impI)
  let ?k = "grid ov ! row ! col"
  have now: "grid (draw_frames covers ov fs) ! row ! col = (decay ^^ length fs) ?k"
    using assms(1,2,4) by (rule draw_frames_unlit)
  show "25 \<le> grid (draw_frames covers ov fs) ! row ! col"
    unfolding now using assms(3) by (intro decay_iter_floor) simp
  show "grid (draw_frames covers ov fs) ! row ! col = 25" if "2302 \<le> length fs"
    unfolding now using assms(3) that by (intro decay_iter_settled_any) simp_all
  fix f :: "surface \<times> int \<times> int"
  assume "\<not> lit (cell_center ov row col) (snd f) (radius (light ov))"
  then have "\<forall>f\<in>set (fs @ [f]). \<not> lit (cell_center ov row col) (snd f) (radius (light ov))"
    using assms(4) by simp
  then have "grid (draw_frames covers ov (fs @ [f])) ! row ! col = (decay ^^ length (fs @ [f])) ?k"
    using assms(1,2) by (intro draw_frames_unlit)
  then show "grid (draw_frames covers ov (fs @ [f])) ! row ! col
               \<le> grid (draw_frames covers ov fs) ! row ! col"
    unfolding now using decay_iter_antimono[of ?k "length fs"] assms(3) by simp
qed

text \<open>The theorem at a cell holding 30, over 2302 frames and then one more.\<close>

theorem unlit_decay_settles_witness:
  "(25::rat) < 30 \<and>
   grid (draw_frames disc (one_cell 30) (far_frames 2302 @ [(black_screen, (1000, 1000))])) ! 0 ! 0
     \<le> grid (draw_frames disc (one_cell 30) (far_frames 2302)) ! 0 ! 0 \<and>
   grid (draw_frames disc (one_cell 30) (far_frames 2302)) ! 0 ! 0 = 25"
proof -
  have r: "(0::nat) < length (grid (one_cell 30))"
    and c: "(0::nat) < length (grid (one_cell 30) ! 0)"
    and k: "25 < grid (one_cell 30) ! 0 ! 0"
    by (simp_all add: one_cell_fields)
  have f: "\<not> lit (cell_center (one_cell 30) 0 0) (snd (black_screen, (1000, 1000)))
             (radius (light (one_cell 30)))"
    by (simp add: one_cell_fields cell_center_def lit_code)
  have n: "2302 \<le> length (far_frames 2302)"
    by (simp add: far_frames_def)
  note t = unlit_decay_settles[where fs = "far_frames 2302" and covers = disc, OF r c k far_frames_unlit]
  from t have "grid (draw_frames disc (one_cell 30) (far_frames 2302 @ [(black_screen, (1000, 1000))])) ! 0 ! 0
     \<le> grid (draw_frames disc (one_cell 30) (far_frames 2302)) ! 0 ! 0"
    using f by blast
  moreover from t n have "grid (draw_frames disc (one_cell 30) (far_frames 2302)) ! 0 ! 0 = 25"
    by blast
  ultimately show ?thesis by simp
qed

subsection \<open>C4: from 255 without light\<close>

text \<open>
  C4 as stated fails: each call takes the float \<open>0.1\<close> off the cell, so 500 calls take about
  50, and the cell that started at 255 does not hold 25 after them.
\<close>

theorem five_hundred_updates_counterexample:
  "grid (draw_frames disc (one_cell 255) (far_frames 500)) ! 0 ! 0 \<noteq> 25"
proof -
  have "grid (draw_frames disc (one_cell 255) (far_frames 500)) ! 0 ! 0
          = (decay ^^ length (far_frames 500)) (grid (one_cell 255) ! 0 ! 0)"
    by (intro draw_frames_unlit far_frames_unlit) (simp_all add: one_cell_fields)
  then have eq: "grid (draw_frames disc (one_cell 255) (far_frames 500)) ! 0 ! 0 = (decay ^^ 500) 255"
    by (simp add: far_frames_def one_cell_fields)
  have "255 - of_nat 500 * (tenth + slack) \<le> (decay ^^ 500) 255"
    by (intro decay_iter_lower) simp_all
  moreover have "(204::rat) < 255 - of_nat 500 * (tenth + slack)"
    by (simp add: tenth_eq slack_def)
  ultimately show ?thesis unfolding eq by linarith
qed

text \<open>
  C4, as the code has it. A cell of the grid that holds 255 and is outside the light's
  radius in every frame holds 205, to within \<open>10 ^ (- 10)\<close>, after 500 calls of \<open>draw\<close>; after
  2301 calls it holds exactly 25, and so it does after any greater number of calls.
\<close>

theorem unlit_from_255:
  assumes "row < length (grid ov)" and "col < length (grid ov ! row)"
    and "grid ov ! row ! col = 255"
    and "\<forall>f\<in>set fs. \<not> lit (cell_center ov row col) (snd f) (radius (light ov))"
  shows "(length fs = 500 \<longrightarrow>
            \<bar>grid (draw_frames covers ov fs) ! row ! col - 205\<bar> < 1 / 10 ^ 10) \<and>
         (2301 \<le> length fs \<longrightarrow> grid (draw_frames covers ov fs) ! row ! col = 25)"
proof (intro conjI impI)
  have now: "grid (draw_frames covers ov fs) ! row ! col = (decay ^^ length fs) 255"
    using draw_frames_unlit[OF assms(1,2,4), of covers] assms(3) by simp
  show "grid (draw_frames covers ov fs) ! row ! col = 25" if "2301 \<le> length fs"
    unfolding now using that by (intro decay_iter_settled) simp_all
  show "\<bar>grid (draw_frames covers ov fs) ! row ! col - 205\<bar> < 1 / 10 ^ 10" if "length fs = 500"
  proof -
    have lo: "255 - of_nat 500 * (tenth + slack) \<le> (decay ^^ 500) 255"
      by (intro decay_iter_lower) simp_all
    have hi: "(decay ^^ 500) 255 \<le> max 25 (255 - of_nat 500 * (tenth - slack))"
      by (intro decay_iter_upper) simp_all
    have a: "205 - 1 / 10 ^ 10 < 255 - of_nat 500 * (tenth + slack)"
      by (simp add: tenth_eq slack_def)
    have b: "max 25 (255 - of_nat 500 * (tenth - slack)) < 205 + 1 / 10 ^ 10"
      by (simp add: tenth_eq slack_def)
    have "205 - 1 / 10 ^ 10 < (decay ^^ 500) 255" "(decay ^^ 500) 255 < 205 + 1 / 10 ^ 10"
      using lo hi a b by linarith+
    then show ?thesis
      unfolding now that by linarith
  qed
qed

text \<open>The theorem at the one-cell overlay holding 255, over 500 and over 2301 frames.\<close>

theorem unlit_from_255_witness:
  "\<bar>grid (draw_frames disc (one_cell 255) (far_frames 500)) ! 0 ! 0 - 205\<bar> < 1 / 10 ^ 10 \<and>
   grid (draw_frames disc (one_cell 255) (far_frames 2301)) ! 0 ! 0 = 25"
proof -
  have r: "(0::nat) < length (grid (one_cell 255))"
    and c: "(0::nat) < length (grid (one_cell 255) ! 0)"
    and k: "grid (one_cell 255) ! 0 ! 0 = 255"
    by (simp_all add: one_cell_fields)
  from unlit_from_255[where fs = "far_frames 500" and covers = disc, OF r c k far_frames_unlit]
    unlit_from_255[where fs = "far_frames 2301" and covers = disc, OF r c k far_frames_unlit]
  show ?thesis by (simp add: far_frames_def)
qed

subsection \<open>C5: the size of the grid\<close>

text \<open>
  C5 as stated fails: the constructor divides with \<open>//\<close>, which rounds down. A screen of 100
  by 100 gets 3 rows of 3 cells, and the ceiling of \<open>100 / 32\<close> is 4.
\<close>

theorem ceiling_dimensions_counterexample:
  "\<not> isl (DarkOverlay_init sample_fits (100, 100) 0) \<and>
   map length (grid (projr (DarkOverlay_init sample_fits (100, 100) 0))) = [3, 3, 3] \<and>
   \<lceil>100 / (32::rat)\<rceil> = 4"
proof -
  have "\<lceil>100 / (32::rat)\<rceil> = 4" by (simp add: ceiling_eq_iff)
  moreover have "replicate (nat 3) (replicate (nat 3) (0::rat)) = [[0,0,0],[0,0,0],[0,0,0]]"
    by (simp add: numeral_3_eq_3)
  ultimately show ?thesis
    by (simp add: DarkOverlay_init_eq sample_fits_def)
qed

text \<open>
  C5, as the code has it. The grid that \<open>DarkOverlay.__init__\<close> builds has
  \<open>height // 32\<close> rows of \<open>width // 32\<close> cells each, the cell size being 32; each of the two
  numbers equals the ceiling of the quotient exactly when 32 divides that screen dimension.
\<close>

theorem grid_dimensions:
  assumes "DarkOverlay_init fits SIZE now = Inr ov"
  shows "cell_size ov = 32 \<and>
         length (grid ov) = nat (snd SIZE div 32) \<and>
         (\<forall>row\<in>set (grid ov). length row = nat (fst SIZE div 32)) \<and>
         (fst SIZE div 32 = \<lceil>of_int (fst SIZE) / (32::rat)\<rceil> \<longleftrightarrow> 32 dvd fst SIZE) \<and>
         (snd SIZE div 32 = \<lceil>of_int (snd SIZE) / (32::rat)\<rceil> \<longleftrightarrow> 32 dvd snd SIZE)"
proof -
  note ov = DarkOverlay_init_Inr[OF assms]
  have ceil: "n div 32 = \<lceil>of_int n / (32::rat)\<rceil> \<longleftrightarrow> 32 dvd n" for n :: int
  proof -
    have "\<lceil>of_int n / (of_int 32 :: rat)\<rceil> = - (- n div 32)"
      by (rule ceiling_divide_eq_div)
    then have c: "\<lceil>of_int n / (32::rat)\<rceil> = - (- n div 32)" by simp
    have "n div 32 = - (- n div 32) \<longleftrightarrow> 32 dvd n"
      by (simp add: zdiv_zminus1_eq_if dvd_eq_mod_eq_0)
    then show ?thesis unfolding c .
  qed
  have "cell_size ov = 32" "length (grid ov) = nat (snd SIZE div 32)"
    "\<forall>row\<in>set (grid ov). length row = nat (fst SIZE div 32)"
    by (subst ov, simp)+
  then show ?thesis
    using ceil[of "fst SIZE"] ceil[of "snd SIZE"] by simp
qed

text \<open>The theorem at a screen of 1024 by 768: 24 rows of 32 cells.\<close>

theorem grid_dimensions_witness:
  "DarkOverlay_init sample_fits (1024, 768) 0
     = Inr (projr (DarkOverlay_init sample_fits (1024, 768) 0)) \<and>
   cell_size (projr (DarkOverlay_init sample_fits (1024, 768) 0)) = 32 \<and>
   map length (grid (projr (DarkOverlay_init sample_fits (1024, 768) 0))) = replicate 24 32"
proof -
  let ?g = "grid (projr (DarkOverlay_init sample_fits (1024, 768) 0))"
  have i: "DarkOverlay_init sample_fits (1024, 768) 0
             = Inr (projr (DarkOverlay_init sample_fits (1024, 768) 0))"
    by (simp add: DarkOverlay_init_eq sample_fits_def)
  from grid_dimensions[OF i]
  have c: "cell_size (projr (DarkOverlay_init sample_fits (1024, 768) 0)) = 32"
    and n: "length ?g = 24" and r: "\<forall>row\<in>set ?g. length row = 32"
    by simp_all
  from r have "\<forall>y\<in>set (map length ?g). y = 32" by simp
  then have "replicate (length (map length ?g)) 32 = map length ?g"
    by (rule replicate_length_same)
  then have "map length ?g = replicate 24 32" using n by simp
  with i c show ?thesis by simp
qed

subsection \<open>C6: the rings of the glow mask\<close>

text \<open>
  C6 as stated fails for the mask that the constructor leaves behind. The constructor paints
  its 25 rings at steps of 5 and then calls \<open>update_glow\<close>, which replaces the surface by a
  new one with rings at steps of 3: ring 1 of a light of radius 125 has radius 122, not 120.
\<close>

theorem constructor_mask_step_counterexample:
  "\<not> isl (LightGlow_init sample_fits 125 0) \<and>
   snd (snd (rings (surf (projr (LightGlow_init sample_fits 125 0))) ! 1)) \<noteq> 125 - 1 * 5"
  by (simp add: LightGlow_init_eq sample_fits_def)

text \<open>
  C6, as the code has it. The mask that a \<open>LightGlow\<close> holds after its construction, and
  after every call of \<open>update_glow\<close>, is made of exactly 25 concentric rings painted in the
  order of their index, all about the centre of the mask, which is \<open>(radius, radius)\<close> for a
  radius from 0 to below \<open>2 ^ 30\<close>; ring \<open>i\<close> has the radius \<open>radius - i * 3\<close> and the
  brightness \<open>clamp(i * glow, 0, 255)\<close> for the counter as it is after the call (12 after the
  construction). A later ring is never larger and never darker than an earlier one, so the
  inner, brighter rings are painted over the outer ones.
\<close>

theorem mask_rings:
  "(LightGlow_init fits r now = Inr lg \<longrightarrow>
      rings (surf lg) =
        map (\<lambda>i. ((clamp (int i * 12) 0 255, clamp (int i * 12) 0 255, clamp (int i * 12) 0 255),
                   mask_center (surf lg), r - int i * 3)) [0..<25] \<and>
      (0 \<le> r \<and> r < 2 ^ 30 \<longrightarrow> mask_center (surf lg) = (r, r))) \<and>
   (update_glow fits lg0 = Inr lg1 \<longrightarrow>
      length (rings (surf lg1)) = 25 \<and>
      rings (surf lg1) =
        map (\<lambda>i. ((clamp (int i * glow lg1) 0 255, clamp (int i * glow lg1) 0 255,
                    clamp (int i * glow lg1) 0 255),
                   mask_center (surf lg1), radius lg0 - int i * 3)) [0..<25] \<and>
      (0 \<le> radius lg0 \<and> radius lg0 < 2 ^ 30 \<longrightarrow>
         mask_center (surf lg1) = (radius lg0, radius lg0)) \<and>
      (\<forall>i j. i \<le> j \<longrightarrow> clamp (int i * glow lg1) 0 255 \<le> clamp (int j * glow lg1) 0 255
                       \<and> radius lg0 - int j * 3 \<le> radius lg0 - int i * 3))"
proof (intro conjI impI)
  assume a: "LightGlow_init fits r now = Inr lg"
  from LightGlow_init_cases[OF a] obtain m
    where m: "new_mask fits (r * 2, r * 2) = Inr m"
      and lg: "lg = \<lparr>radius = r,
                   surf = m\<lparr>rings :=
                     map (\<lambda>i. ((clamp (int i * 12) 0 255, clamp (int i * 12) 0 255,
                                 clamp (int i * 12) 0 255),
                                mask_center m, r - int i * 3)) [0..<25]\<rparr>,
                   glow = 12, blink_timer = now, is_blinking = False, blink_k = 1\<rparr>"
    by blast
  have c: "mask_center (surf lg) = mask_center m"
    by (simp add: lg mask_center_def)
  show "rings (surf lg) =
        map (\<lambda>i. ((clamp (int i * 12) 0 255, clamp (int i * 12) 0 255, clamp (int i * 12) 0 255),
                   mask_center (surf lg), r - int i * 3)) [0..<25]"
    unfolding c by (simp add: lg)
  show "mask_center (surf lg) = (r, r)" if "0 \<le> r \<and> r < 2 ^ 30"
    unfolding c using mask_center_in_range(3)[OF m] that by simp
next
  assume a: "update_glow fits lg0 = Inr lg1"
  from update_glow_cases[OF a] obtain m
    where m: "new_mask fits (radius lg0 * 2, radius lg0 * 2) = Inr m"
      and e: "lg1 = lg0\<lparr>glow := clamp (glow lg0 + 1) 0 255,
                      surf := m\<lparr>rings :=
                        map (\<lambda>i. ((clamp (int i * clamp (glow lg0 + 1) 0 255) 0 255,
                                    clamp (int i * clamp (glow lg0 + 1) 0 255) 0 255,
                                    clamp (int i * clamp (glow lg0 + 1) 0 255) 0 255),
                                   mask_center m, radius lg0 - int i * 3)) [0..<25]\<rparr>\<rparr>"
    by blast
  have g: "glow lg1 = clamp (glow lg0 + 1) 0 255" by (simp add: e)
  have c: "mask_center (surf lg1) = mask_center m"
    by (simp add: e mask_center_def)
  show rs: "rings (surf lg1) =
        map (\<lambda>i. ((clamp (int i * glow lg1) 0 255, clamp (int i * glow lg1) 0 255,
                    clamp (int i * glow lg1) 0 255),
                   mask_center (surf lg1), radius lg0 - int i * 3)) [0..<25]"
    unfolding g c by (simp add: e)
  show "length (rings (surf lg1)) = 25"
    by (simp add: e)
  show "mask_center (surf lg1) = (radius lg0, radius lg0)"
    if "0 \<le> radius lg0 \<and> radius lg0 < 2 ^ 30"
    unfolding c using mask_center_in_range(3)[OF m] that by simp
  have g0: "0 \<le> glow lg1" unfolding g by (simp add: clamp_def)
  show "\<forall>i j. i \<le> j \<longrightarrow> clamp (int i * glow lg1) 0 255 \<le> clamp (int j * glow lg1) 0 255
                       \<and> radius lg0 - int j * 3 \<le> radius lg0 - int i * 3"
  proof (intro allI impI)
    fix i j :: nat
    assume "i \<le> j"
    then have "int i * glow lg1 \<le> int j * glow lg1"
      using g0 by (intro mult_right_mono) simp_all
    then show "clamp (int i * glow lg1) 0 255 \<le> clamp (int j * glow lg1) 0 255
                 \<and> radius lg0 - int j * 3 \<le> radius lg0 - int i * 3"
      using \<open>i \<le> j\<close> by (simp add: clamp_def)
  qed
qed

text \<open>The theorem at the light of radius 125 and at one further call of \<open>update_glow\<close>.\<close>

theorem mask_rings_witness:
  "LightGlow_init sample_fits 125 0 = Inr (projr (LightGlow_init sample_fits 125 0)) \<and>
   rings (surf (projr (LightGlow_init sample_fits 125 0))) ! 2 = ((24, 24, 24), (125, 125), 119) \<and>
   update_glow sample_fits (projr (LightGlow_init sample_fits 125 0))
     = Inr (projr (update_glow sample_fits (projr (LightGlow_init sample_fits 125 0)))) \<and>
   length (rings (surf (projr (update_glow sample_fits (projr (LightGlow_init sample_fits 125 0))))))
     = 25"
proof -
  let ?lg = "projr (LightGlow_init sample_fits 125 0)"
  have i: "LightGlow_init sample_fits 125 0 = Inr ?lg"
    by (simp add: LightGlow_init_eq sample_fits_def)
  have u: "update_glow sample_fits ?lg = Inr (projr (update_glow sample_fits ?lg))"
    by (simp add: LightGlow_init_eq update_glow_eq sample_fits_def)
  note t = mask_rings[of sample_fits 125 0 ?lg ?lg "projr (update_glow sample_fits ?lg)"]
  from t i have r: "rings (surf ?lg) =
        map (\<lambda>i. ((clamp (int i * 12) 0 255, clamp (int i * 12) 0 255, clamp (int i * 12) 0 255),
                   mask_center (surf ?lg), 125 - int i * 3)) [0..<25]"
    and c: "mask_center (surf ?lg) = (125, 125)"
    by simp_all
  from t u have l: "length (rings (surf (projr (update_glow sample_fits ?lg)))) = 25"
    by blast
  have "rings (surf ?lg) ! 2 = ((24, 24, 24), (125, 125), 119)"
    unfolding r c by (simp add: clamp_def)
  with i u l show ?thesis by simp
qed

subsection \<open>C7: the glow counter\<close>

text \<open>
  C7. A call of \<open>update_glow\<close> returns exactly when pygame creates the new surface, which
  it does for every radius from 0 to below \<open>2 ^ 30\<close> that it can allocate. When it returns,
  the counter is the old counter plus 1, clamped to \<open>[0, 255]\<close>, which is the old counter
  plus exactly 1 for a counter from 0 to 254, and the mask is the new surface with the 25
  rings of the new counter painted on it. A counter that has reached 255 is 255 after any
  number of further calls, all of which return.
\<close>

theorem glow_counter:
  "(0 \<le> radius lg \<and> radius lg < 2 ^ 30 \<and> fits (radius lg * 2, radius lg * 2) \<longrightarrow>
      \<not> isl (new_mask fits (radius lg * 2, radius lg * 2))) \<and>
   (isl (update_glow fits lg) \<longleftrightarrow> isl (new_mask fits (radius lg * 2, radius lg * 2))) \<and>
   (\<not> isl (new_mask fits (radius lg * 2, radius lg * 2)) \<longrightarrow>
      glow (projr (update_glow fits lg)) = clamp (glow lg + 1) 0 255 \<and>
      (0 \<le> glow lg \<and> glow lg < 255 \<longrightarrow> glow (projr (update_glow fits lg)) = glow lg + 1) \<and>
      surf (projr (update_glow fits lg)) =
        (projr (new_mask fits (radius lg * 2, radius lg * 2)))
          \<lparr>rings := map (\<lambda>i. ((clamp (int i * glow (projr (update_glow fits lg))) 0 255,
                                clamp (int i * glow (projr (update_glow fits lg))) 0 255,
                                clamp (int i * glow (projr (update_glow fits lg))) 0 255),
                               mask_center (projr (new_mask fits (radius lg * 2, radius lg * 2))),
                               radius lg - int i * 3)) [0..<25]\<rparr> \<and>
      (0 \<le> radius lg \<and> radius lg < 2 ^ 30 \<longrightarrow>
         surf (projr (update_glow fits lg)) =
           \<lparr>mask_w = radius lg * 2, mask_h = radius lg * 2,
            rings = map (\<lambda>i. ((clamp (int i * glow (projr (update_glow fits lg))) 0 255,
                                clamp (int i * glow (projr (update_glow fits lg))) 0 255,
                                clamp (int i * glow (projr (update_glow fits lg))) 0 255),
                               (radius lg, radius lg), radius lg - int i * 3)) [0..<25]\<rparr>) \<and>
      (glow lg = 255 \<longrightarrow>
         (\<forall>n. \<not> isl (update_glow_times fits n lg)
               \<and> glow (projr (update_glow_times fits n lg)) = 255)))"
proof (intro conjI impI allI)
  show "\<not> isl (new_mask fits (radius lg * 2, radius lg * 2))"
    if "0 \<le> radius lg \<and> radius lg < 2 ^ 30 \<and> fits (radius lg * 2, radius lg * 2)"
  proof -
    have "new_mask fits (radius lg * 2, radius lg * 2)
            = Inr \<lparr>mask_w = radius lg * 2, mask_h = radius lg * 2, rings = []\<rparr>"
      using that by (intro new_mask_eq) simp_all
    then show ?thesis by simp
  qed
  show "isl (update_glow fits lg) \<longleftrightarrow> isl (new_mask fits (radius lg * 2, radius lg * 2))"
  proof (cases "new_mask fits (radius lg * 2, radius lg * 2)")
    case (Inl e)
    from update_glow_Inl[OF this] Inl show ?thesis by simp
  next
    case (Inr m)
    from update_glow_Inr[OF this] Inr show ?thesis by simp
  qed
next
  assume a: "\<not> isl (new_mask fits (radius lg * 2, radius lg * 2))"
  then obtain m where m: "new_mask fits (radius lg * 2, radius lg * 2) = Inr m"
    by (cases "new_mask fits (radius lg * 2, radius lg * 2)") simp_all
  note u = update_glow_Inr[OF m]
  show g: "glow (projr (update_glow fits lg)) = clamp (glow lg + 1) 0 255"
    by (simp add: u)
  show "glow (projr (update_glow fits lg)) = glow lg + 1" if "0 \<le> glow lg \<and> glow lg < 255"
    using that by (simp add: u clamp_def)
  show s: "surf (projr (update_glow fits lg)) =
        (projr (new_mask fits (radius lg * 2, radius lg * 2)))
          \<lparr>rings := map (\<lambda>i. ((clamp (int i * glow (projr (update_glow fits lg))) 0 255,
                                clamp (int i * glow (projr (update_glow fits lg))) 0 255,
                                clamp (int i * glow (projr (update_glow fits lg))) 0 255),
                               mask_center (projr (new_mask fits (radius lg * 2, radius lg * 2))),
                               radius lg - int i * 3)) [0..<25]\<rparr>"
    unfolding g by (simp add: u m)
  show "surf (projr (update_glow fits lg)) =
           \<lparr>mask_w = radius lg * 2, mask_h = radius lg * 2,
            rings = map (\<lambda>i. ((clamp (int i * glow (projr (update_glow fits lg))) 0 255,
                                clamp (int i * glow (projr (update_glow fits lg))) 0 255,
                                clamp (int i * glow (projr (update_glow fits lg))) 0 255),
                               (radius lg, radius lg), radius lg - int i * 3)) [0..<25]\<rparr>"
    if r: "0 \<le> radius lg \<and> radius lg < 2 ^ 30"
  proof -
    from r have r1: "0 \<le> radius lg" and r2: "radius lg < 2 ^ 30" by simp_all
    note c = mask_center_in_range[OF m r1 r2]
    show ?thesis
      unfolding g by (simp add: u c)
  qed
  show "\<not> isl (update_glow_times fits n lg)" "glow (projr (update_glow_times fits n lg)) = 255"
    if "glow lg = 255" for n
    using update_glow_times_saturated[OF a that, of n] by simp_all
qed

text \<open>
  The theorem at the light of radius 125: the counter goes from 12 to 13, and a counter set
  to 255 is still 255 after 1000 calls.
\<close>

theorem glow_counter_witness:
  "\<not> isl (new_mask sample_fits (radius (projr (LightGlow_init sample_fits 125 0)) * 2,
                               radius (projr (LightGlow_init sample_fits 125 0)) * 2)) \<and>
   \<not> isl (update_glow sample_fits (projr (LightGlow_init sample_fits 125 0))) \<and>
   glow (projr (update_glow sample_fits (projr (LightGlow_init sample_fits 125 0)))) = 13 \<and>
   glow (projr (update_glow_times sample_fits 1000
           ((projr (LightGlow_init sample_fits 125 0))\<lparr>glow := 255\<rparr>))) = 255"
proof -
  let ?lg = "projr (LightGlow_init sample_fits 125 0)"
  let ?lg' = "?lg\<lparr>glow := 255\<rparr>"
  have r: "radius ?lg = 125" "radius ?lg' = 125"
    and g: "glow ?lg = 12" "glow ?lg' = 255"
    by (simp_all add: LightGlow_init_eq sample_fits_def)
  have f: "sample_fits (125 * 2, 125 * 2)" by (simp add: sample_fits_def)
  note t = glow_counter[of ?lg sample_fits]
  note t' = glow_counter[of ?lg' sample_fits]
  from t r f have m: "\<not> isl (new_mask sample_fits (radius ?lg * 2, radius ?lg * 2))"
    by simp
  from t' r f have m': "\<not> isl (new_mask sample_fits (radius ?lg' * 2, radius ?lg' * 2))"
    by simp
  from t m have u: "\<not> isl (update_glow sample_fits ?lg)" by blast
  from t m have "glow (projr (update_glow sample_fits ?lg)) = clamp (glow ?lg + 1) 0 255"
    by blast
  then have c: "glow (projr (update_glow sample_fits ?lg)) = 13"
    by (simp add: g clamp_def)
  from t' m' g have "glow (projr (update_glow_times sample_fits 1000 ?lg')) = 255"
    by blast
  with m u c show ?thesis by simp
qed

subsection \<open>C8: the size of the mask\<close>




subsection \<open>C9: an all-black frame\<close>

text \<open>
  C9. For every overlay, mask, light position and screen, the screen that \<open>draw\<close> returns is
  the screen multiplied, channel by channel, by the overlay's surface, and that surface is
  the painted grid with the light's mask blended onto it by the channel-wise maximum, centred
  on the light position: pixel by pixel, the result is the product of the screen's colour
  and the overlay's colour wherever the two surfaces overlap. An all-black screen therefore
  comes back as it was, whatever the grid and the mask are, so also for a grid whose cells all
  hold 255. A channel multiplied by 255 is unchanged, and 255 multiplied by a channel gives
  that channel, so a pixel of any screen keeps its colour wherever the overlay is at full
  brightness, and a white pixel takes the overlay's colour. A cell that holds 255 is painted 254
  outside the light's radius and with the revealed grey level inside it, before the mask is
  blended on.
\<close>

theorem black_frame_unchanged:
  "snd (draw covers ov screen pos)
     = blit_mult screen (dark_surf (fst (draw covers ov screen pos))) (0, 0) \<and>
   dark_surf (fst (draw covers ov screen pos))
     = blit_max (snd (draw_cells (light ov) pos (cell_size ov) (grid ov, dark_surf ov)))
         (rasterise covers (surf (light ov)))
         (fst pos - mask_w (surf (light ov)) div 2, snd pos - mask_h (surf (light ov)) div 2) \<and>
   (\<forall>x y. pix (snd (draw covers ov screen pos)) x y =
      (if inside screen x y \<and> inside (dark_surf ov) x y
       then colour_mult (pix screen x y) (pix (dark_surf (fst (draw covers ov screen pos))) x y)
       else pix screen x y)) \<and>
   ((\<forall>x y. pix screen x y = (0, 0, 0)) \<longrightarrow> snd (draw covers ov screen pos) = screen) \<and>
   (\<forall>d. 0 \<le> d \<and> d \<le> 255 \<longrightarrow> blend_mult d 255 = d \<and> blend_mult 255 d = d) \<and>
   (\<forall>x y. byte_colour (pix screen x y)
           \<and> pix (dark_surf (fst (draw covers ov screen pos))) x y = (255, 255, 255)
      \<longrightarrow> pix (snd (draw covers ov screen pos)) x y = pix screen x y) \<and>
   (\<forall>row col x y.
      row < length (grid ov) \<and> col < length (grid ov ! row) \<and> grid ov ! row ! col = 255
      \<and> inside (dark_surf ov) x y
      \<and> int col * cell_size ov \<le> x \<and> x < int col * cell_size ov + cell_size ov
      \<and> int row * cell_size ov \<le> y \<and> y < int row * cell_size ov + cell_size ov
      \<longrightarrow> pix (snd (draw_cells (light ov) pos (cell_size ov) (grid ov, dark_surf ov))) x y =
            (let v = (if lit (cell_center ov row col) pos (radius (light ov))
                      then clamp (55 - (11 - glow (light ov)) * 2) 0 255 else 254)
             in (v, v, v)))"
proof (intro conjI allI impI)
  show "snd (draw covers ov screen pos)
     = blit_mult screen (dark_surf (fst (draw covers ov screen pos))) (0, 0)"
    by (rule draw_screen)
  show "dark_surf (fst (draw covers ov screen pos))
     = blit_max (snd (draw_cells (light ov) pos (cell_size ov) (grid ov, dark_surf ov)))
         (rasterise covers (surf (light ov)))
         (fst pos - mask_w (surf (light ov)) div 2, snd pos - mask_h (surf (light ov)) div 2)"
    by (rule draw_dark_surf)
  show "pix (snd (draw covers ov screen pos)) x y =
      (if inside screen x y \<and> inside (dark_surf ov) x y
       then colour_mult (pix screen x y) (pix (dark_surf (fst (draw covers ov screen pos))) x y)
       else pix screen x y)" for x y
    by (rule draw_screen_pixel)
  show "snd (draw covers ov screen pos) = screen" if "\<forall>x y. pix screen x y = (0, 0, 0)"
    unfolding draw_screen[of covers ov screen pos] by (rule blit_mult_black[OF that])
  show "blend_mult d 255 = d" "blend_mult 255 d = d" if "0 \<le> d \<and> d \<le> 255" for d
    using that by (simp_all add: blend_mult_full blend_mult_white)
  show "pix (snd (draw covers ov screen pos)) x y = pix screen x y"
    if "byte_colour (pix screen x y)
          \<and> pix (dark_surf (fst (draw covers ov screen pos))) x y = (255, 255, 255)" for x y
    using that by (simp add: draw_screen_pixel colour_mult_full)
  show "pix (snd (draw_cells (light ov) pos (cell_size ov) (grid ov, dark_surf ov))) x y =
            (let v = (if lit (cell_center ov row col) pos (radius (light ov))
                      then clamp (55 - (11 - glow (light ov)) * 2) 0 255 else 254)
             in (v, v, v))"
    if "row < length (grid ov) \<and> col < length (grid ov ! row) \<and> grid ov ! row ! col = 255
      \<and> inside (dark_surf ov) x y
      \<and> int col * cell_size ov \<le> x \<and> x < int col * cell_size ov + cell_size ov
      \<and> int row * cell_size ov \<le> y \<and> y < int row * cell_size ov + cell_size ov"
    for row col x y
    using that by (intro draw_cells_pixel_255) simp_all
qed

text \<open>
  The theorem at the one-cell overlay holding 255: the black screen comes back unchanged; with
  the light on the cell the overlay is at 255 and a tinted screen keeps its colour; with the
  light far off the cell is painted 254.
\<close>

theorem black_frame_unchanged_witness:
  "(\<forall>x y. pix black_screen x y = (0, 0, 0)) \<and>
   grid (one_cell 255) = [[255]] \<and>
   snd (draw disc (one_cell 255) black_screen (16, 16)) = black_screen \<and>
   blend_mult 200 255 = 200 \<and>
   pix (dark_surf (fst (draw disc (one_cell 255) tinted_screen (16, 16)))) 3 4 = (255, 255, 255) \<and>
   pix (snd (draw disc (one_cell 255) tinted_screen (16, 16))) 3 4 = pix tinted_screen 3 4 \<and>
   pix (snd (draw_cells (light (one_cell 255)) (1000, 1000) (cell_size (one_cell 255))
              (grid (one_cell 255), dark_surf (one_cell 255)))) 3 4 = (254, 254, 254)"
proof -
  have b: "\<forall>x y. pix black_screen x y = (0, 0, 0)"
    by (simp add: black_screen_def)
  note t = black_frame_unchanged[of disc "one_cell 255" black_screen "(16, 16)"]
  note t' = black_frame_unchanged[of disc "one_cell 255" tinted_screen "(16, 16)"]
  note t'' = black_frame_unchanged[of disc "one_cell 255" black_screen "(1000, 1000)"]
  from t b have 1: "snd (draw disc (one_cell 255) black_screen (16, 16)) = black_screen"
    by blast
  from t have "\<forall>d. 0 \<le> d \<and> d \<le> 255 \<longrightarrow> blend_mult d 255 = d \<and> blend_mult 255 d = d"
    by blast
  then have 2: "blend_mult 200 255 = 200" by simp
  have bc: "byte_colour (pix tinted_screen 3 4)"
    by (simp add: tinted_screen_def byte_colour_def)
  from t' bc draw_tinted_near_layer
  have 3: "pix (snd (draw disc (one_cell 255) tinted_screen (16, 16))) 3 4 = pix tinted_screen 3 4"
    by blast
  have h: "(0::nat) < length (grid (one_cell 255)) \<and> (0::nat) < length (grid (one_cell 255) ! 0)
      \<and> grid (one_cell 255) ! 0 ! 0 = 255
      \<and> inside (dark_surf (one_cell 255)) 3 4
      \<and> int 0 * cell_size (one_cell 255) \<le> 3 \<and> 3 < int 0 * cell_size (one_cell 255) + cell_size (one_cell 255)
      \<and> int 0 * cell_size (one_cell 255) \<le> 4 \<and> 4 < int 0 * cell_size (one_cell 255) + cell_size (one_cell 255)"
    by (simp add: one_cell_fields inside_def)
  from t'' have "\<forall>row col x y.
      row < length (grid (one_cell 255)) \<and> col < length (grid (one_cell 255) ! row)
      \<and> grid (one_cell 255) ! row ! col = 255
      \<and> inside (dark_surf (one_cell 255)) x y
      \<and> int col * cell_size (one_cell 255) \<le> x
      \<and> x < int col * cell_size (one_cell 255) + cell_size (one_cell 255)
      \<and> int row * cell_size (one_cell 255) \<le> y
      \<and> y < int row * cell_size (one_cell 255) + cell_size (one_cell 255)
      \<longrightarrow> pix (snd (draw_cells (light (one_cell 255)) (1000, 1000) (cell_size (one_cell 255))
                     (grid (one_cell 255), dark_surf (one_cell 255)))) x y =
            (let v = (if lit (cell_center (one_cell 255) row col) (1000, 1000)
                            (radius (light (one_cell 255)))
                      then clamp (55 - (11 - glow (light (one_cell 255))) * 2) 0 255 else 254)
             in (v, v, v))"
    by blast
  from this[rule_format, OF h]
  have 4: "pix (snd (draw_cells (light (one_cell 255)) (1000, 1000) (cell_size (one_cell 255))
              (grid (one_cell 255), dark_surf (one_cell 255)))) 3 4 = (254, 254, 254)"
    by (simp add: one_cell_fields cell_center_def lit_code)
  from b 1 2 3 4 draw_tinted_near_layer show ?thesis
    by (simp add: one_cell_fields)
qed

subsection \<open>C10: the glow counter never reaches the grid\<close>

text \<open>
  C10. For a cell inside the light's radius, the brightness that \<open>draw\<close> stores in the grid
  is 55 whatever the glow counter of the light is; and the whole grid after the call is the
  same for every value of the counter. The offset \<open>(11 - glow) * 2\<close> enters the painted grey
  level only, so nothing of it is carried to the next frame.
\<close>

theorem glow_never_stored:
  assumes "row < length (grid ov)" and "col < length (grid ov ! row)"
    and "lit (cell_center ov row col) pos (radius (light ov))"
  shows "grid (fst (draw covers (ov\<lparr>light := (light ov)\<lparr>glow := g\<rparr>\<rparr>) screen pos)) ! row ! col = 55 \<and>
         grid (fst (draw covers (ov\<lparr>light := (light ov)\<lparr>glow := g\<rparr>\<rparr>) screen pos))
           = grid (fst (draw covers ov screen pos))"
proof
  show "grid (fst (draw covers (ov\<lparr>light := (light ov)\<lparr>glow := g\<rparr>\<rparr>) screen pos)) ! row ! col = 55"
    using assms by (simp add: draw_grid_cell cell_center_def stored_lit)
  show "grid (fst (draw covers (ov\<lparr>light := (light ov)\<lparr>glow := g\<rparr>\<rparr>) screen pos))
           = grid (fst (draw covers ov screen pos))"
    by (simp add: draw_grid stored_def)
qed

text \<open>The theorem at the one-cell overlay, the light on the cell and the counter at 255.\<close>

theorem glow_never_stored_witness:
  "lit (cell_center (one_cell 200) 0 0) (16, 16) (radius (light (one_cell 200))) \<and>
   grid (fst (draw disc ((one_cell 200)\<lparr>light := (light (one_cell 200))\<lparr>glow := 255\<rparr>\<rparr>)
                black_screen (16, 16))) ! 0 ! 0 = 55"
proof -
  have l: "lit (cell_center (one_cell 200) 0 0) (16, 16) (radius (light (one_cell 200)))"
    by (simp add: one_cell_fields cell_center_def lit_code)
  have r: "(0::nat) < length (grid (one_cell 200))"
    and c: "(0::nat) < length (grid (one_cell 200) ! 0)"
    by (simp_all add: one_cell_fields)
  from glow_never_stored[where covers = disc and g = 255 and screen = black_screen, OF r c l] l
  show ?thesis by blast
qed

end
